theory Spec2Isabelle
  imports Main "HOL-Library.Word" "HOL-Library.Multiset" "HOL-Library.Stream"
begin

section \<open>Cards (struct card of poker.h)\<close>

text \<open>
  The anonymous enum of suits. Its enumerators are plain C++ \<open>int\<close> values.
\<close>

definition CLUB :: int where "CLUB = 0"
definition DIAMOND :: int where "DIAMOND = 1"
definition HEART :: int where "HEART = 2"
definition SPADE :: int where "SPADE = 3"

text \<open>
  \<open>struct card\<close> holds two bit-fields: \<open>unsigned short suit:2\<close> and
  \<open>unsigned short number:4\<close>. A 2-bit field is a \<open>2 word\<close>, a 4-bit field a \<open>4 word\<close>.
\<close>

record card =
  suit :: "2 word"
  number :: "4 word"

text \<open>
  The constructor \<open>card(unsigned short _suit, unsigned short _number)\<close> stores its
  16-bit arguments into the bit-fields; \<open>ucast\<close> keeps the low bits.
\<close>

definition card_ctor :: "16 word \<Rightarrow> 16 word \<Rightarrow> card" where
  "card_ctor s n = \<lparr>suit = ucast s, number = ucast n\<rparr>"

text \<open>\<open>card::operator==\<close>.\<close>

definition card_eq :: "card \<Rightarrow> card \<Rightarrow> bool" where
  "card_eq a rop \<longleftrightarrow> number a = number rop \<and> suit a = suit rop"

section \<open>Outcomes of a call\<close>

text \<open>
  The exceptions the code throws, with their messages, and the outcome of a call: it
  returns a value, throws, or runs into undefined behaviour (\<open>back()\<close> or \<open>pop_back()\<close>
  on an empty vector, \<open>operator[]\<close> out of range). A state-changing operation is a
  function from the object to an outcome paired with the object after the call.
\<close>

datatype exn = invalid_argument string | out_of_range string

datatype 'a outcome = Returns 'a | Throws exn | Undefined

section \<open>Decks (class deck)\<close>

datatype print_mode = no_sort | sort_by_number | sort_by_suit | rank_only

datatype sort_mode = rank_first_descending | suit_first_descending

record deck =
  output_stream :: print_mode
  pile :: "card list"

text \<open>A default-constructed deck: no cards, printing without sorting.\<close>

definition new_deck :: deck where
  "new_deck = \<lparr>output_stream = no_sort, pile = []\<rparr>"

definition push_back :: "card \<Rightarrow> deck \<Rightarrow> deck" where
  "push_back c d = d\<lparr>deck.pile := deck.pile d @ [c]\<rparr>"

definition size_d :: "deck \<Rightarrow> nat" where
  "size_d d = length (deck.pile d)"

definition empty_d :: "deck \<Rightarrow> bool" where
  "empty_d d \<longleftrightarrow> size_d d = 0"

text \<open>
  \<open>back_d\<close> and \<open>pop_back\<close> are undefined on an empty deck. The models below are applied
  to non-empty decks only: every caller tests \<open>empty_d\<close> first and yields \<open>Undefined\<close>.
\<close>

definition back_d :: "deck \<Rightarrow> card" where
  "back_d d = last (deck.pile d)"

definition pop_back :: "deck \<Rightarrow> deck" where
  "pop_back d = d\<lparr>deck.pile := butlast (deck.pile d)\<rparr>"

text \<open>
  \<open>std::find\<close> with \<open>operator==\<close>: the position of the first equal card, or the length
  of the list (the end iterator) when there is none.
\<close>

fun std_find :: "card list \<Rightarrow> card \<Rightarrow> nat" where
  "std_find [] c = 0"
| "std_find (x # xs) c = (if card_eq x c then 0 else Suc (std_find xs c))"

text \<open>\<open>vector::erase\<close> of one position.\<close>

definition erase :: "nat \<Rightarrow> 'a list \<Rightarrow> 'a list" where
  "erase i xs = take i xs @ drop (Suc i) xs"

text \<open>\<open>deck::remove\<close>.\<close>

definition remove :: "card \<Rightarrow> deck \<Rightarrow> card outcome \<times> deck" where
  "remove c d =
     (let it = std_find (deck.pile d) c in
      if it = length (deck.pile d)
      then (Throws (invalid_argument ''He or she does not have the card''), d)
      else (Returns c, d\<lparr>deck.pile := erase it (deck.pile d)\<rparr>))"

text \<open>
  \<open>deck::suit_subdeck(int suit)\<close>: the loop over the pile pushes every card whose suit
  field, promoted to \<open>int\<close>, equals the argument onto a fresh deck.
\<close>

definition suit_subdeck :: "int \<Rightarrow> deck \<Rightarrow> deck" where
  "suit_subdeck s d =
     fold (\<lambda>crd dktmp. if uint (suit crd) = s then push_back crd dktmp else dktmp)
       (deck.pile d) new_deck"

subsection \<open>Sorting\<close>

text \<open>The two comparators handed to \<open>std::sort\<close> in \<open>deck::sort\<close>.\<close>

definition cmp_rank_first :: "card \<Rightarrow> card \<Rightarrow> bool" where
  "cmp_rank_first a b =
     (if number a \<noteq> number b
      then number a = 1 \<or> (number b \<noteq> 1 \<and> number a > number b)
      else suit a > suit b)"

definition cmp_suit_first :: "card \<Rightarrow> card \<Rightarrow> bool" where
  "cmp_suit_first a b =
     (if suit a = suit b
      then number a = 1 \<or> (number b \<noteq> 1 \<and> number a > number b)
      else suit a > suit b)"

text \<open>
  \<open>std::sort\<close> is library code, modelled by its contract. The comparator must induce
  a strict weak ordering on the values of the range: it is irreflexive and
  transitive, and so is the equivalence "neither is ordered before the other";
  otherwise the behaviour is undefined. Then the range is rearranged so that no
  element is followed by one the comparator orders before it. The rearrangement is
  computed here by insertion: each element in turn is inserted into the sorted
  prefix, in front of the first element it is ordered before.
\<close>

definition equiv_cmp :: "('a \<Rightarrow> 'a \<Rightarrow> bool) \<Rightarrow> 'a \<Rightarrow> 'a \<Rightarrow> bool" where
  "equiv_cmp cmp a b \<longleftrightarrow> \<not> cmp a b \<and> \<not> cmp b a"

definition strict_weak_ordering :: "('a \<Rightarrow> 'a \<Rightarrow> bool) \<Rightarrow> 'a list \<Rightarrow> bool" where
  "strict_weak_ordering cmp xs \<longleftrightarrow>
     (\<forall>a \<in> set xs. \<not> cmp a a) \<and>
     (\<forall>a \<in> set xs. \<forall>b \<in> set xs. \<forall>c \<in> set xs. cmp a b \<and> cmp b c \<longrightarrow> cmp a c) \<and>
     (\<forall>a \<in> set xs. \<forall>b \<in> set xs. \<forall>c \<in> set xs.
        equiv_cmp cmp a b \<and> equiv_cmp cmp b c \<longrightarrow> equiv_cmp cmp a c)"

fun linear_insert :: "('a \<Rightarrow> 'a \<Rightarrow> bool) \<Rightarrow> 'a \<Rightarrow> 'a list \<Rightarrow> 'a list" where
  "linear_insert cmp v [] = [v]"
| "linear_insert cmp v (y # ys) =
     (if cmp v y then v # y # ys else y # linear_insert cmp v ys)"

definition insertion_sort :: "('a \<Rightarrow> 'a \<Rightarrow> bool) \<Rightarrow> 'a list \<Rightarrow> 'a list" where
  "insertion_sort cmp xs = fold (linear_insert cmp) xs []"

definition std_sort :: "('a \<Rightarrow> 'a \<Rightarrow> bool) \<Rightarrow> 'a list \<Rightarrow> 'a list outcome" where
  "std_sort cmp xs =
     (if strict_weak_ordering cmp xs then Returns (insertion_sort cmp xs) else Undefined)"

definition comparator :: "sort_mode \<Rightarrow> card \<Rightarrow> card \<Rightarrow> bool" where
  "comparator mode =
     (case mode of rank_first_descending \<Rightarrow> cmp_rank_first
                 | suit_first_descending \<Rightarrow> cmp_suit_first)"

text \<open>\<open>deck::sort\<close>: the pile is sorted in place with the comparator of the mode.\<close>

definition sort_with :: "(card \<Rightarrow> card \<Rightarrow> bool) \<Rightarrow> deck \<Rightarrow> unit outcome \<times> deck" where
  "sort_with cmp d =
     (case std_sort cmp (deck.pile d) of
        Returns ys \<Rightarrow> (Returns (), d\<lparr>deck.pile := ys\<rparr>)
      | Throws e \<Rightarrow> (Throws e, d)
      | Undefined \<Rightarrow> (Undefined, d))"

definition sort_d :: "sort_mode \<Rightarrow> deck \<Rightarrow> unit outcome \<times> deck" where
  "sort_d mode d =
     (case mode of
        rank_first_descending \<Rightarrow> sort_with cmp_rank_first d
      | suit_first_descending \<Rightarrow> sort_with cmp_suit_first d)"

section \<open>The game (class poker)\<close>

record poker =
  players :: "32 word"
  pile :: deck
  player_card :: "deck list"

text \<open>
  The constructor. The three nested \<open>for\<close> statements push the cards of one source
  deck, suit by suit and rank by rank, then the two jokers; the last one pushes one
  empty deck per player. The loop variables \<open>i\<close> and \<open>j\<close> are \<open>unsigned char\<close>,
  widened to the constructor's \<open>unsigned short\<close>.
\<close>

definition push_ranks :: "8 word \<Rightarrow> deck \<Rightarrow> deck" where
  "push_ranks i d =
     fold (\<lambda>j. push_back (card_ctor (ucast i) (ucast j))) (map of_nat [1..<14] :: 8 word list) d"

definition push_suits :: "deck \<Rightarrow> deck" where
  "push_suits d = fold push_ranks (map of_nat [0..<4] :: 8 word list) d"

definition push_source_deck :: "bool \<Rightarrow> deck \<Rightarrow> deck" where
  "push_source_deck joker d =
     (let d1 = push_suits d in
      if joker then push_back (card_ctor 1 14) (push_back (card_ctor 1 14) d1) else d1)"

definition poker_ctor :: "32 word \<Rightarrow> 32 word \<Rightarrow> bool \<Rightarrow> poker outcome" where
  "poker_ctor deck player joker =
     (if player = 0
      then Throws (invalid_argument ''Argument 'player' cannot be zero'')
      else Returns
        \<lparr>players = player,
         pile = fold (\<lambda>k. push_source_deck joker) [0..<unat deck] new_deck,
         player_card = fold (\<lambda>i pc. pc @ [new_deck]) [0..<unat player] []\<rparr>)"

subsection \<open>Shuffle\<close>

text \<open>
  The random generator is outside the program: its outputs are a stream \<open>g\<close> of
  natural numbers handed to \<open>shuffle\<close>. \<open>floor_unif sz r\<close> is the index that
  \<open>floor(unif(generator))\<close> yields from the raw output \<open>r\<close> for the distribution over
  \<open>[0, sz)\<close>: an index below \<open>sz\<close>, every one of them for some \<open>r\<close>; over the empty
  interval \<open>[0, 0)\<close> the distribution can only give \<open>0.0\<close>.
\<close>

definition floor_unif :: "nat \<Rightarrow> nat \<Rightarrow> nat" where
  "floor_unif sz r = (if sz = 0 then 0 else r mod sz)"

text \<open>
  The \<open>do ... while (a == b)\<close> loop: it draws \<open>b\<close> until it differs from \<open>a\<close>, and may
  run forever; \<open>None\<close> is "does not return". The result is \<open>b\<close> and the rest of the
  generator's outputs.
\<close>

partial_function (option) draw_b :: "nat \<Rightarrow> nat \<Rightarrow> nat stream \<Rightarrow> (nat \<times> nat stream) option" where
  "draw_b sz a g =
     (let b = floor_unif sz (shd g) in
      if a = b then draw_b sz a (stl g) else Some (b, stl g))"

text \<open>\<open>std::swap(pile[a], pile[b])\<close>.\<close>

definition swap :: "nat \<Rightarrow> nat \<Rightarrow> deck \<Rightarrow> deck" where
  "swap a b d = d\<lparr>deck.pile := (deck.pile d)[a := deck.pile d ! b, b := deck.pile d ! a]\<rparr>"

text \<open>The \<open>for\<close> loop of \<open>shuffle\<close>, running \<open>n\<close> more times.\<close>

fun shuffle_loop :: "nat \<Rightarrow> nat \<Rightarrow> deck \<Rightarrow> nat stream \<Rightarrow> deck option" where
  "shuffle_loop 0 sz d g = Some d"
| "shuffle_loop (Suc n) sz d g =
     (let a = floor_unif sz (shd g) in
      case draw_b sz a (stl g) of
        None \<Rightarrow> None
      | Some (b, g') \<Rightarrow> shuffle_loop n sz (swap a b d) g')"

text \<open>
  \<open>poker::shuffle\<close>. The size of the pile is read into an \<open>unsigned int\<close>, which keeps
  it modulo \<open>2 ^ 32\<close>.
\<close>

definition shuffle_size :: "deck \<Rightarrow> nat" where
  "shuffle_size d = unat (of_nat (size_d d) :: 32 word)"

definition shuffle :: "32 word \<Rightarrow> nat stream \<Rightarrow> poker \<Rightarrow> poker option" where
  "shuffle time g t =
     map_option (\<lambda>d. t\<lparr>poker.pile := d\<rparr>)
       (shuffle_loop (unat time) (shuffle_size (poker.pile t)) (poker.pile t) g)"

subsection \<open>Play, draw and deal\<close>

definition play :: "32 word \<Rightarrow> card \<Rightarrow> poker \<Rightarrow> unit outcome \<times> poker" where
  "play player_no c t =
     (if player_no \<ge> players t
      then (Throws (out_of_range ''The player number is too large''), t)
      else if length (player_card t) \<le> unat player_no then (Undefined, t)
      else
        (case remove c (player_card t ! unat player_no) of
           (Returns _, d) \<Rightarrow> (Returns (), t\<lparr>player_card := (player_card t)[unat player_no := d]\<rparr>)
         | (Throws e, d) \<Rightarrow> (Throws e, t)
         | (Undefined, d) \<Rightarrow> (Undefined, t)))"

definition draw :: "32 word \<Rightarrow> poker \<Rightarrow> card outcome \<times> poker" where
  "draw player_no t =
     (if player_no \<ge> players t
      then (Throws (out_of_range ''The player number is too large''), t)
      else if length (player_card t) \<le> unat player_no \<or> empty_d (poker.pile t)
      then (Undefined, t)
      else
        (let hand = push_back (back_d (poker.pile t)) (player_card t ! unat player_no);
             t1 = t\<lparr>player_card := (player_card t)[unat player_no := hand]\<rparr>;
             t2 = t1\<lparr>poker.pile := pop_back (poker.pile t1)\<rparr>
         in (Returns (back_d hand), t2)))"

text \<open>
  The loop of \<open>deal\<close>, running \<open>n\<close> more times with the current \<open>player_no\<close>.
\<close>

fun deal_loop :: "nat \<Rightarrow> 32 word \<Rightarrow> poker \<Rightarrow> unit outcome \<times> poker" where
  "deal_loop 0 player_no t = (Returns (), t)"
| "deal_loop (Suc n) player_no t =
     (if length (player_card t) \<le> unat player_no \<or> empty_d (poker.pile t)
      then (Undefined, t)
      else
        (let hand = push_back (back_d (poker.pile t)) (player_card t ! unat player_no);
             t1 = t\<lparr>player_card := (player_card t)[unat player_no := hand]\<rparr>;
             t2 = t1\<lparr>poker.pile := pop_back (poker.pile t1)\<rparr>;
             player_no1 = player_no + 1
         in deal_loop n (if player_no1 \<ge> players t2 then 0 else player_no1) t2))"

text \<open>
  \<open>poker::deal\<close>. \<open>card_per_person *= players\<close> is a product of two \<open>unsigned int\<close>,
  taken modulo \<open>2 ^ 32\<close>; the loop counter runs from 0 up to it.
\<close>

definition deal :: "32 word \<Rightarrow> poker \<Rightarrow> unit outcome \<times> poker" where
  "deal card_per_person t = deal_loop (unat (card_per_person * players t)) 0 t"

subsection \<open>Observations on a game\<close>

text \<open>The cards of hand \<open>i\<close>, and the number of cards on the table.\<close>

definition hand :: "poker \<Rightarrow> nat \<Rightarrow> card list" where
  "hand t i = deck.pile (player_card t ! i)"

definition total_cards :: "poker \<Rightarrow> nat" where
  "total_cards t = size_d (poker.pile t) + sum_list (map size_d (player_card t))"

text \<open>
  Every game the constructor builds has one hand per player and at least one player,
  and every operation keeps it so.
\<close>

definition wf_poker :: "poker \<Rightarrow> bool" where
  "wf_poker t \<longleftrightarrow> players t \<noteq> 0 \<and> length (player_card t) = unat (players t)"

section \<open>Reference notions and sample games\<close>

text \<open>
  The 52 combinations of a suit (0 to 3) and a rank (1 to 13), suit by suit, and the
  cards of one source deck: the 52 combinations, then two jokers (rank 14, suit 1)
  when jokers are included.
\<close>

definition combinations52 :: "card list" where
  "combinations52 =
     concat (map (\<lambda>s. map (\<lambda>r. \<lparr>suit = of_nat s, number = of_nat r\<rparr>) [1..<14]) [0..<4])"

definition source_deck :: "bool \<Rightarrow> card list" where
  "source_deck joker =
     combinations52 @
     (if joker then [\<lparr>suit = 1, number = 14\<rparr>, \<lparr>suit = 1, number = 14\<rparr>] else [])"

text \<open>One deck without jokers for two players, before and after player 0 draws.\<close>

definition fresh_game :: poker where
  "fresh_game =
     \<lparr>players = 2, pile = \<lparr>output_stream = no_sort, pile = combinations52\<rparr>,
      player_card = [new_deck, new_deck]\<rparr>"

definition drawn_one :: poker where
  "drawn_one = snd (draw 0 fresh_game)"

text \<open>
  One deck with jokers for a single player, who draws twice: the two jokers lie at
  the end of the pile.
\<close>

definition two_jokers :: poker where
  "two_jokers =
     snd (draw 0 (snd (draw 0 (case poker_ctor 1 1 True of Returns t \<Rightarrow> t))))"

text \<open>
  Numeric keys for the two sort orders: the rank with the ace above every other rank,
  combined with the suit, rank first or suit first. The comparators are read through
  them in the proofs below.
\<close>

definition rank_key :: "card \<Rightarrow> nat" where
  "rank_key c = (if number c = 1 then 16 else unat (number c))"

definition key_rank_first :: "card \<Rightarrow> nat" where
  "key_rank_first c = 4 * rank_key c + unat (suit c)"

definition key_suit_first :: "card \<Rightarrow> nat" where
  "key_suit_first c = 17 * unat (suit c) + rank_key c"

definition sort_key :: "sort_mode \<Rightarrow> card \<Rightarrow> nat" where
  "sort_key mode =
     (case mode of rank_first_descending \<Rightarrow> key_rank_first
                 | suit_first_descending \<Rightarrow> key_suit_first)"

text \<open>
  Sample hands: one in descending order, one with a king before an ace, one with the
  ace of spades twice, as two source decks give it, and one of 17 cards with the ace
  of spades at positions 1 and 8.
\<close>

definition sorted_hand :: deck where
  "sorted_hand =
     \<lparr>output_stream = no_sort, pile = [card_ctor 3 1, card_ctor 3 13, card_ctor 0 2]\<rparr>"

definition king_ace_hand :: deck where
  "king_ace_hand =
     \<lparr>output_stream = no_sort, pile = [card_ctor 3 13, card_ctor 0 2, card_ctor 1 1]\<rparr>"

definition two_aces :: deck where
  "two_aces = \<lparr>output_stream = no_sort, pile = [card_ctor 3 1, card_ctor 3 1]\<rparr>"

definition aces_at_1_and_8 :: deck where
  "aces_at_1_and_8 =
     \<lparr>output_stream = no_sort,
      pile = [card_ctor 0 2, card_ctor 3 1, card_ctor 0 3, card_ctor 0 4, card_ctor 0 5,
              card_ctor 0 6, card_ctor 0 7, card_ctor 0 8, card_ctor 3 1, card_ctor 0 9,
              card_ctor 0 10, card_ctor 0 11, card_ctor 0 12, card_ctor 0 13,
              card_ctor 1 2, card_ctor 1 3, card_ctor 1 4]\<rparr>"

text \<open>
  Games at the limits of the 32-bit counters: 82595525 decks for 65536 players
  (4294967300 cards, and 65536 * 65536 is \<open>2 ^ 32\<close>), and 1073741824 decks for one
  player (\<open>13 * 2 ^ 32\<close> cards). A game built from no deck at all. A sample of
  generator outputs, and the outputs 0, 1, 2, ...
\<close>

definition wrap_game :: poker where
  "wrap_game =
     \<lparr>players = 65536,
      pile = \<lparr>output_stream = no_sort,
              pile = concat (replicate 82595525 (source_deck False))\<rparr>,
      player_card = replicate 65536 new_deck\<rparr>"

definition big_game :: poker where
  "big_game =
     \<lparr>players = 1,
      pile = \<lparr>output_stream = no_sort,
              pile = concat (replicate 1073741824 (source_deck False))\<rparr>,
      player_card = replicate 1 new_deck\<rparr>"

definition no_cards :: poker where
  "no_cards = \<lparr>players = 1, pile = new_deck, player_card = [new_deck]\<rparr>"

definition sample_draws :: "nat stream" where
  "sample_draws = 52 ## 0 ## 53 ## 2 ## 54 ## 1 ## sconst 0"

definition counting_draws :: "nat stream" where
  "counting_draws = siterate Suc 0"

text \<open>
  82595525 decks for one player, and that game after \<open>deal 4\<close>: a pile of exactly
  \<open>2 ^ 32\<close> cards.
\<close>

definition heavy_game :: poker where
  "heavy_game =
     \<lparr>players = 1,
      pile = \<lparr>output_stream = no_sort,
              pile = concat (replicate 82595525 (source_deck False))\<rparr>,
      player_card = replicate 1 new_deck\<rparr>"

definition four_dealt :: poker where
  "four_dealt = snd (deal 4 heavy_game)"

text \<open>
  Generator outputs on which every redraw loop ends: after every position a later
  output gives another index.
\<close>

definition redraws_differ :: "nat \<Rightarrow> nat stream \<Rightarrow> bool" where
  "redraws_differ sz g \<longleftrightarrow>
     (\<forall>n. \<exists>k. floor_unif sz (g !! (n + Suc k)) \<noteq> floor_unif sz (g !! n))"

text \<open>
  One round of the loop body of \<open>deal\<close>, the player the next round serves, and the
  cards player \<open>i\<close> receives in \<open>n\<close> rounds that start with player \<open>pn\<close> on the
  pile \<open>cs\<close>: round \<open>j\<close> hands out the \<open>j\<close>-th card from the end of the pile.
\<close>

definition deal_step :: "32 word \<Rightarrow> poker \<Rightarrow> poker" where
  "deal_step player_no t =
     t\<lparr>player_card := (player_card t)[unat player_no :=
          push_back (back_d (poker.pile t)) (player_card t ! unat player_no)],
       poker.pile := pop_back (poker.pile t)\<rparr>"

definition next_player :: "32 word \<Rightarrow> poker \<Rightarrow> 32 word" where
  "next_player player_no t = (if player_no + 1 \<ge> players t then 0 else player_no + 1)"

definition dealt_hand :: "nat \<Rightarrow> nat \<Rightarrow> nat \<Rightarrow> card list \<Rightarrow> nat \<Rightarrow> card list" where
  "dealt_hand p pn n cs i = map (\<lambda>j. rev cs ! j) (filter (\<lambda>j. (pn + j) mod p = i) [0..<n])"

section \<open>Card fields\<close>

lemma card_eq_iff: "card_eq a b \<longleftrightarrow> a = b"
  by (cases a, cases b) (auto simp: card_eq_def)

lemma ctor_fields_uint:
  "uint (suit (card_ctor (word_of_int s) (word_of_int n))) = s mod 4 \<and>
   uint (number (card_ctor (word_of_int s) (word_of_int n))) = n mod 16"
proof -
  have a: "s mod 65536 mod 4 = s mod 4" by (rule mod_mod_cancel) simp
  have b: "n mod 65536 mod 16 = n mod 16" by (rule mod_mod_cancel) simp
  show ?thesis
    by (simp add: card_ctor_def unsigned_ucast_eq take_bit_eq_mod uint_word_of_int a b)
qed

text \<open>
  Claim C10. An integer argument of the card constructor is first converted to the
  parameter type \<open>unsigned short\<close> (\<open>word_of_int\<close>), then stored in the bit-field.
  For all integers \<open>s\<close> and \<open>n\<close> the stored suit is \<open>s mod 4\<close> and the stored number
  is \<open>n mod 16\<close>; \<open>operator==\<close> sees nothing else of the arguments, so two cards are
  equal exactly when their arguments agree modulo 4 and modulo 16. No argument is
  rejected: the constructor is a total function.
\<close>

theorem card_fields_truncated:
  "uint (suit (card_ctor (word_of_int s) (word_of_int n))) = s mod 4 \<and>
   uint (number (card_ctor (word_of_int s) (word_of_int n))) = n mod 16 \<and>
   (card_eq (card_ctor (word_of_int s) (word_of_int n))
            (card_ctor (word_of_int s') (word_of_int n'))
      \<longleftrightarrow> s mod 4 = s' mod 4 \<and> n mod 16 = n' mod 16)"
  using ctor_fields_uint[of s n] ctor_fields_uint[of s' n']
  by (auto simp add: card_eq_def word_uint_eq_iff)

section \<open>Subset of a suit\<close>

lemma fold_filter_push:
  "fold (\<lambda>crd dk. if P crd then push_back crd dk else dk) xs d
     = d\<lparr>deck.pile := deck.pile d @ filter P xs\<rparr>"
  by (induction xs arbitrary: d) (simp_all add: push_back_def)

text \<open>
  Claim C9. \<open>suit_subdeck s\<close> returns a fresh deck (default print mode) holding exactly
  the cards of the receiver whose suit field equals \<open>s\<close>, in their original order
  (\<open>filter\<close> keeps the order). The method is \<open>const\<close> and only reads the receiver: the
  model is a function of the receiver that returns the new deck and nothing else. A
  joker is stored with suit 1, which is \<open>DIAMOND\<close>, so the diamonds contain every joker
  of the deck.
\<close>

theorem suit_subdeck_filter:
  "suit_subdeck s d
     = \<lparr>output_stream = no_sort,
        pile = filter (\<lambda>crd. uint (suit crd) = s) (deck.pile d)\<rparr> \<and>
   count_list (deck.pile (suit_subdeck DIAMOND d)) (card_ctor 1 14)
     = count_list (deck.pile d) (card_ctor 1 14)"
proof -
  have sub: "suit_subdeck s' d
     = \<lparr>output_stream = no_sort,
        pile = filter (\<lambda>crd. uint (suit crd) = s') (deck.pile d)\<rparr>" for s'
    by (simp add: suit_subdeck_def fold_filter_push new_deck_def)
  have cnt: "count_list (filter (\<lambda>crd. uint (suit crd) = 1) xs) (card_ctor 1 14)
     = count_list xs (card_ctor 1 14)" for xs
    by (induction xs) (auto simp: card_ctor_def)
  show ?thesis
    by (simp add: sub DIAMOND_def cnt)
qed

section \<open>Construction\<close>

lemma fold_push_back:
  "fold (\<lambda>j. push_back (f j)) js d = d\<lparr>deck.pile := deck.pile d @ map f js\<rparr>"
  by (induction js arbitrary: d) (simp_all add: push_back_def)

lemma push_ranks_eq:
  "push_ranks i d =
     d\<lparr>deck.pile := deck.pile d @
        map (\<lambda>j. card_ctor (ucast i) (ucast j)) (map of_nat [1..<14] :: 8 word list)\<rparr>"
  unfolding push_ranks_def by (rule fold_push_back)

lemma fold_push_ranks:
  "fold push_ranks is d =
     d\<lparr>deck.pile := deck.pile d @
        concat (map (\<lambda>i. map (\<lambda>j. card_ctor (ucast i) (ucast j))
                            (map of_nat [1..<14] :: 8 word list)) is)\<rparr>"
proof (induction "is" arbitrary: d)
  case Nil
  then show ?case by simp
next
  case (Cons a "is")
  show ?case by (simp only: fold_simps Cons.IH) (simp add: push_ranks_eq)
qed

lemma ctor_cards_are_combinations52:
  "concat (map (\<lambda>i. map (\<lambda>j. card_ctor (ucast i) (ucast j))
                       (map of_nat [1..<14] :: 8 word list))
               (map of_nat [0..<4] :: 8 word list)) = combinations52"
  by code_simp

lemma length_combinations52: "length combinations52 = 52"
  by code_simp

lemma distinct_combinations52: "distinct combinations52"
  by code_simp

lemma set_combinations52: "set combinations52 = {c. 1 \<le> number c \<and> number c \<le> 13}"
proof (rule set_eqI)
  fix c :: card
  show "c \<in> set combinations52 \<longleftrightarrow> c \<in> {c. 1 \<le> number c \<and> number c \<le> 13}"
  proof
    assume "c \<in> set combinations52"
    then obtain s r where r: "1 \<le> r" "r < 14"
      and c: "c = \<lparr>suit = of_nat s, number = of_nat r\<rparr>"
      unfolding combinations52_def by auto
    from r have "unat (of_nat r :: 4 word) = r"
      by (simp add: unat_of_nat)
    with r c show "c \<in> {c. 1 \<le> number c \<and> number c \<le> 13}"
      by (simp add: word_le_nat_alt)
  next
    assume "c \<in> {c. 1 \<le> number c \<and> number c \<le> 13}"
    then have n: "unat (number c) \<in> {1..<14}"
      by (simp add: word_le_nat_alt)
    have s: "unat (suit c) \<in> {0..<4}"
      using unsigned_less[of "suit c", where 'a=nat] by simp
    have "c = \<lparr>suit = of_nat (unat (suit c)), number = of_nat (unat (number c))\<rparr>"
      by simp
    then have "c \<in> (\<lambda>r. \<lparr>suit = of_nat (unat (suit c)), number = of_nat r\<rparr>) ` {1..<14}"
      using n by (rule image_eqI)
    then have "\<exists>s\<in>{0..<4}. c \<in> (\<lambda>r. \<lparr>suit = of_nat s, number = of_nat r\<rparr>) ` {1..<14}"
      using s by blast
    then show "c \<in> set combinations52"
      unfolding combinations52_def by simp
  qed
qed

lemma push_suits_eq: "push_suits d = d\<lparr>deck.pile := deck.pile d @ combinations52\<rparr>"
  unfolding push_suits_def fold_push_ranks ctor_cards_are_combinations52 ..

lemma joker_fields: "card_ctor 1 14 = \<lparr>suit = 1, number = 14\<rparr>"
  by (simp add: card_ctor_def)

lemma push_source_deck_eq:
  "push_source_deck joker d = d\<lparr>deck.pile := deck.pile d @ source_deck joker\<rparr>"
  by (simp add: push_source_deck_def push_suits_eq source_deck_def push_back_def joker_fields)

lemma fold_push_source_deck:
  "fold (\<lambda>k. push_source_deck joker) ks d =
     d\<lparr>deck.pile := deck.pile d @ concat (replicate (length ks) (source_deck joker))\<rparr>"
proof (induction ks arbitrary: d)
  case Nil
  then show ?case by simp
next
  case (Cons a ks)
  show ?case by (simp only: fold_simps Cons.IH) (simp add: push_source_deck_eq)
qed

lemma fold_push_hands: "fold (\<lambda>i pc. pc @ [x]) ks pc = pc @ replicate (length ks) x"
  by (induction ks arbitrary: pc) (simp_all add: replicate_app_Cons_same)

lemma length_source_decks:
  "length (concat (replicate n (source_deck joker)))
     = n * 52 + (if joker then 1 else 0) * n * 2"
  by (induction n) (simp_all add: source_deck_def length_combinations52)

lemma poker_ctor_Returns:
  "player \<noteq> 0 \<Longrightarrow>
   poker_ctor deck player joker =
     Returns \<lparr>players = player,
              pile = \<lparr>output_stream = no_sort,
                      pile = concat (replicate (unat deck) (source_deck joker))\<rparr>,
              player_card = replicate (unat player) new_deck\<rparr>"
  by (simp add: poker_ctor_def fold_push_source_deck fold_push_hands new_deck_def)

text \<open>
  Claim C2. With at least one player the constructor returns the game whose pile is,
  for each of the \<open>deck\<close> source decks in turn, the 52 combinations followed by the
  two jokers when \<open>joker\<close> is set, and whose hands are \<open>player\<close> empty decks. The pile
  has \<open>deck * 52 + j * deck * 2\<close> cards. The 52 combinations are 52 different cards,
  exactly the cards of rank 1 to 13 (the suit field has the four values 0 to 3 only);
  a joker has rank 14 and the suit of diamonds. With no player the constructor throws
  \<open>std::invalid_argument\<close>, the spec's InvalidArgument.
\<close>

theorem poker_ctor_builds:
  "(player \<noteq> 0 \<longrightarrow>
      poker_ctor deck player joker =
        Returns \<lparr>players = player,
                 pile = \<lparr>output_stream = no_sort,
                         pile = concat (replicate (unat deck) (source_deck joker))\<rparr>,
                 player_card = replicate (unat player) new_deck\<rparr>) \<and>
   length (concat (replicate (unat deck) (source_deck joker)))
     = unat deck * 52 + (if joker then 1 else 0) * unat deck * 2 \<and>
   length combinations52 = 52 \<and> distinct combinations52 \<and>
   set combinations52 = {c. 1 \<le> number c \<and> number c \<le> 13} \<and>
   uint (suit \<lparr>suit = 1, number = 14\<rparr>) = DIAMOND \<and>
   poker_ctor deck 0 joker = Throws (invalid_argument ''Argument 'player' cannot be zero'')"
  using poker_ctor_Returns[of player deck joker]
  by (simp add: length_source_decks length_combinations52 distinct_combinations52
      set_combinations52 DIAMOND_def poker_ctor_def)

theorem poker_ctor_builds_witness:
  "(2 :: 32 word) \<noteq> 0 \<and>
   poker_ctor 1 2 True =
     Returns \<lparr>players = 2,
              pile = \<lparr>output_stream = no_sort, pile = source_deck True\<rparr>,
              player_card = replicate 2 new_deck\<rparr> \<and>
   length (source_deck True) = 54"
  using poker_ctor_builds[of 2 1 True]
  by simp

section \<open>Playing a card\<close>

lemma std_find_absent: "c \<notin> set xs \<Longrightarrow> std_find xs c = length xs"
  by (induction xs) (auto simp: card_eq_iff)

lemma std_find_present:
  "c \<in> set xs \<Longrightarrow> std_find xs c < length xs \<and> erase (std_find xs c) xs = remove1 c xs"
  by (induction xs) (auto simp: card_eq_iff erase_def)

lemma remove_present:
  "c \<in> set (deck.pile d) \<Longrightarrow>
   remove c d = (Returns c, d\<lparr>deck.pile := remove1 c (deck.pile d)\<rparr>)"
  using std_find_present[of c "deck.pile d"] by (simp add: remove_def Let_def)

lemma remove_absent:
  "c \<notin> set (deck.pile d) \<Longrightarrow>
   remove c d = (Throws (invalid_argument ''He or she does not have the card''), d)"
  using std_find_absent[of c "deck.pile d"] by (simp add: remove_def Let_def)

lemma count_remove1: "c \<in> set xs \<Longrightarrow> count_list (remove1 c xs) c + 1 = count_list xs c"
  by (induction xs) auto

lemma wf_index:
  "wf_poker t \<Longrightarrow> player_no < players t \<Longrightarrow> unat player_no < length (player_card t)"
  by (simp add: wf_poker_def word_less_nat_alt)

lemma play_present:
  assumes "wf_poker t" "player_no < players t" "c \<in> set (hand t (unat player_no))"
  shows "play player_no c t =
    (Returns (),
     t\<lparr>player_card := (player_card t)[unat player_no :=
        (player_card t ! unat player_no)\<lparr>deck.pile := remove1 c (hand t (unat player_no))\<rparr>]\<rparr>)"
  using assms wf_index[OF assms(1,2)]
  by (simp add: play_def hand_def remove_present)

lemma play_absent:
  assumes "wf_poker t" "player_no < players t" "c \<notin> set (hand t (unat player_no))"
  shows "play player_no c t =
    (Throws (invalid_argument ''He or she does not have the card''), t)"
  using assms wf_index[OF assms(1,2)]
  by (simp add: play_def hand_def remove_absent)

lemma play_out_of_range:
  "players t \<le> player_no \<Longrightarrow>
   play player_no c t = (Throws (out_of_range ''The player number is too large''), t)"
  by (simp add: play_def)

text \<open>
  Claim C4, as stated, fails where the hand holds the card more than once: \<open>remove\<close>
  erases the first equal card only. After one deck with jokers is built for one player
  and the player draws twice, the hand is two jokers; playing a joker returns, and a
  joker is still found in the hand.
\<close>

theorem play_leaves_duplicate:
  "card_ctor 1 14 \<in> set (hand two_jokers 0) \<and>
   fst (play 0 (card_ctor 1 14) two_jokers) = Returns () \<and>
   card_ctor 1 14 \<in> set (hand (snd (play 0 (card_ctor 1 14) two_jokers)) 0)"
  by code_simp

text \<open>
  Claim C4, amended. In a game with one hand per player: playing a card the hand of a
  valid player holds returns and removes the first equal card, so the hand is one
  card shorter and holds one copy of the card less (none is left exactly when it held
  one), and the pile is as it was; playing a card the hand does not hold throws \<open>std::invalid_argument\<close> (the
  spec's NotFound) and leaves the game as it was; a player index at or above the
  number of players throws \<open>std::out_of_range\<close> and leaves the game as it was.
\<close>

theorem play_contract:
  assumes "wf_poker t"
  shows "(player_no < players t \<and> c \<in> set (hand t (unat player_no)) \<longrightarrow>
            fst (play player_no c t) = Returns () \<and>
            hand (snd (play player_no c t)) (unat player_no)
              = remove1 c (hand t (unat player_no)) \<and>
            length (hand (snd (play player_no c t)) (unat player_no)) + 1
              = length (hand t (unat player_no)) \<and>
            count_list (hand (snd (play player_no c t)) (unat player_no)) c + 1
              = count_list (hand t (unat player_no)) c \<and>
            (c \<in> set (hand (snd (play player_no c t)) (unat player_no))
               \<longleftrightarrow> 2 \<le> count_list (hand t (unat player_no)) c) \<and>
            poker.pile (snd (play player_no c t)) = poker.pile t) \<and>
         (player_no < players t \<and> c \<notin> set (hand t (unat player_no)) \<longrightarrow>
            play player_no c t =
              (Throws (invalid_argument ''He or she does not have the card''), t)) \<and>
         (players t \<le> player_no \<longrightarrow>
            play player_no c t =
              (Throws (out_of_range ''The player number is too large''), t))"
proof (intro conjI impI)
  assume a: "player_no < players t \<and> c \<in> set (hand t (unat player_no))"
  then have i: "unat player_no < length (player_card t)"
    using wf_index[OF assms] by simp
  have p: "play player_no c t =
    (Returns (),
     t\<lparr>player_card := (player_card t)[unat player_no :=
        (player_card t ! unat player_no)\<lparr>deck.pile := remove1 c (hand t (unat player_no))\<rparr>]\<rparr>)"
    using play_present[OF assms] a by simp
  show "fst (play player_no c t) = Returns ()" by (simp add: p)
  show h: "hand (snd (play player_no c t)) (unat player_no)
             = remove1 c (hand t (unat player_no))"
    using i by (simp add: p hand_def)
  show "length (hand (snd (play player_no c t)) (unat player_no)) + 1
          = length (hand t (unat player_no))"
    using a length_pos_if_in_set[of c "hand t (unat player_no)"] unfolding h
    by (simp add: length_remove1)
  show n: "count_list (hand (snd (play player_no c t)) (unat player_no)) c + 1
          = count_list (hand t (unat player_no)) c"
    unfolding h using a by (intro count_remove1) simp
  have "c \<in> set (hand (snd (play player_no c t)) (unat player_no))
      \<longleftrightarrow> 0 < count_list (hand (snd (play player_no c t)) (unat player_no)) c"
    using count_list_0_iff[of "hand (snd (play player_no c t)) (unat player_no)" c] by auto
  with n show "c \<in> set (hand (snd (play player_no c t)) (unat player_no))
      \<longleftrightarrow> 2 \<le> count_list (hand t (unat player_no)) c"
    by arith
  show "poker.pile (snd (play player_no c t)) = poker.pile t"
    by (simp add: p)
next
  assume "player_no < players t \<and> c \<notin> set (hand t (unat player_no))"
  then show "play player_no c t =
      (Throws (invalid_argument ''He or she does not have the card''), t)"
    using play_absent[OF assms] by simp
next
  assume "players t \<le> player_no"
  then show "play player_no c t =
      (Throws (out_of_range ''The player number is too large''), t)"
    by (rule play_out_of_range)
qed

theorem play_contract_witness:
  "wf_poker two_jokers \<and>
   (0 < players two_jokers \<and> card_ctor 1 14 \<in> set (hand two_jokers 0)) \<and>
   fst (play 0 (card_ctor 1 14) two_jokers) = Returns () \<and>
   length (hand (snd (play 0 (card_ctor 1 14) two_jokers)) 0) + 1
     = length (hand two_jokers 0) \<and>
   card_ctor 3 1 \<notin> set (hand two_jokers 0) \<and>
   play 0 (card_ctor 3 1) two_jokers =
     (Throws (invalid_argument ''He or she does not have the card''), two_jokers) \<and>
   players two_jokers \<le> 1 \<and>
   play 1 (card_ctor 1 14) two_jokers =
     (Throws (out_of_range ''The player number is too large''), two_jokers)"
proof -
  have wf: "wf_poker two_jokers"
    by code_simp
  have u: "unat (0 :: 32 word) = 0"
    by simp
  have present: "0 < players two_jokers \<and> card_ctor 1 14 \<in> set (hand two_jokers 0)"
    by code_simp
  have absent: "card_ctor 3 1 \<notin> set (hand two_jokers 0)"
    by code_simp
  have beyond: "players two_jokers \<le> 1"
    by code_simp
  from play_contract[OF wf, of 0 "card_ctor 1 14"] present
  have A: "fst (play 0 (card_ctor 1 14) two_jokers) = Returns () \<and>
      length (hand (snd (play 0 (card_ctor 1 14) two_jokers)) 0) + 1
        = length (hand two_jokers 0)"
    unfolding u by blast
  from play_contract[OF wf, of 0 "card_ctor 3 1"] present absent
  have B: "play 0 (card_ctor 3 1) two_jokers =
     (Throws (invalid_argument ''He or she does not have the card''), two_jokers)"
    unfolding u by blast
  from play_contract[OF wf, of 1 "card_ctor 1 14"] beyond
  have C: "play 1 (card_ctor 1 14) two_jokers =
     (Throws (out_of_range ''The player number is too large''), two_jokers)"
    by blast
  show ?thesis
    using wf present absent beyond A B C by blast
qed

section \<open>Sorting\<close>

lemma suit_bound: "unat (suit c) < 4"
  using unsigned_less[of "suit c", where 'a=nat] by simp

lemma number_bound: "unat (number c) < 16"
  using unsigned_less[of "number c", where 'a=nat] by simp

lemma rank_key_bound: "rank_key c \<le> 16"
  using number_bound[of c] by (simp add: rank_key_def)

lemma rank_key_eq: "rank_key a = rank_key b \<longleftrightarrow> number a = number b"
  using number_bound[of a] number_bound[of b]
  by (auto simp: rank_key_def word_unat_eq_iff)

lemma rank_key_less: "rank_key b < rank_key a \<longleftrightarrow> number a \<noteq> number b \<and> (number a = 1 \<or> (number b \<noteq> 1 \<and> number a > number b))"
  using number_bound[of a] number_bound[of b]
  by (auto simp: rank_key_def word_unat_eq_iff word_less_nat_alt)

lemma cmp_rank_first_key: "cmp_rank_first a b \<longleftrightarrow> key_rank_first b < key_rank_first a"
proof (cases "number a = number b")
  case True
  then have "rank_key a = rank_key b" by (simp add: rank_key_eq)
  with True show ?thesis
    by (simp add: cmp_rank_first_def key_rank_first_def word_less_nat_alt)
next
  case False
  then have ne: "rank_key a \<noteq> rank_key b" by (simp add: rank_key_eq)
  have "cmp_rank_first a b \<longleftrightarrow> rank_key b < rank_key a"
    using False by (simp add: cmp_rank_first_def rank_key_less)
  also have "\<dots> \<longleftrightarrow> key_rank_first b < key_rank_first a"
    using ne suit_bound[of a] suit_bound[of b] unfolding key_rank_first_def by arith
  finally show ?thesis .
qed

lemma cmp_suit_first_key: "cmp_suit_first a b \<longleftrightarrow> key_suit_first b < key_suit_first a \<or> (a = b \<and> number a = 1)"
proof (cases "suit a = suit b")
  case True
  have eq: "a = b \<longleftrightarrow> number a = number b" using True by (cases a, cases b) simp
  have "key_suit_first b < key_suit_first a \<longleftrightarrow> rank_key b < rank_key a"
    using True by (simp add: key_suit_first_def)
  then show ?thesis
    using True unfolding cmp_suit_first_def rank_key_less eq by auto
next
  case False
  then have ne: "unat (suit a) \<noteq> unat (suit b)" by (simp add: word_unat_eq_iff)
  have "cmp_suit_first a b \<longleftrightarrow> unat (suit b) < unat (suit a)"
    using False by (simp add: cmp_suit_first_def word_less_nat_alt)
  also have "\<dots> \<longleftrightarrow> key_suit_first b < key_suit_first a"
    using ne rank_key_bound[of a] rank_key_bound[of b] unfolding key_suit_first_def by arith
  finally show ?thesis using False by auto
qed

lemma key_rank_first_inj: "key_rank_first a = key_rank_first b \<Longrightarrow> a = b"
proof -
  assume k: "key_rank_first a = key_rank_first b"
  have "rank_key a = rank_key b \<and> unat (suit a) = unat (suit b)"
    using k suit_bound[of a] suit_bound[of b] unfolding key_rank_first_def by arith
  then show "a = b"
    by (cases a, cases b) (simp add: rank_key_eq word_unat_eq_iff)
qed

lemma key_suit_first_inj: "key_suit_first a = key_suit_first b \<Longrightarrow> a = b"
proof -
  assume k: "key_suit_first a = key_suit_first b"
  have "rank_key a = rank_key b \<and> unat (suit a) = unat (suit b)"
    using k rank_key_bound[of a] rank_key_bound[of b] unfolding key_suit_first_def by arith
  then show "a = b"
    by (cases a, cases b) (simp add: rank_key_eq word_unat_eq_iff)
qed

lemma comparator_key: "comparator mode a b \<longleftrightarrow> sort_key mode b < sort_key mode a \<or> (mode = suit_first_descending \<and> a = b \<and> number a = 1)"
  by (cases mode) (simp_all add: comparator_def sort_key_def cmp_rank_first_key cmp_suit_first_key)

lemma sort_key_inj: "sort_key mode a = sort_key mode b \<Longrightarrow> a = b"
  by (cases mode) (auto simp: sort_key_def dest: key_rank_first_inj key_suit_first_inj)

lemma mset_linear_insert: "mset (linear_insert cmp v ys) = add_mset v (mset ys)"
  by (induction ys) simp_all

lemma set_linear_insert: "set (linear_insert cmp v ys) = insert v (set ys)"
  by (induction ys) auto

lemma mset_fold_insert: "mset (fold (linear_insert cmp) xs acc) = mset xs + mset acc"
  by (induction xs arbitrary: acc) (simp_all add: mset_linear_insert)

lemma mset_insertion_sort: "mset (insertion_sort cmp xs) = mset xs"
  by (simp add: insertion_sort_def mset_fold_insert)

lemma sorted_linear_insert:
  assumes "\<And>x y. cmp x y \<Longrightarrow> key y \<le> key x" "\<And>x y. \<not> cmp x y \<Longrightarrow> key x \<le> key y"
    and "sorted_wrt (\<lambda>x y. key y \<le> (key x :: nat)) ys"
  shows "sorted_wrt (\<lambda>x y. key y \<le> key x) (linear_insert cmp v ys)"
  using assms(3)
proof (induction ys)
  case Nil
  then show ?case by simp
next
  case (Cons y ys)
  show ?case
  proof (cases "cmp v y")
    case True
    then have "key y \<le> key v" by (rule assms(1))
    with Cons.prems True show ?thesis by (auto intro: order_trans)
  next
    case False
    then have "key v \<le> key y" by (rule assms(2))
    with Cons False show ?thesis by (auto simp: set_linear_insert)
  qed
qed

lemma sorted_fold_insert:
  assumes "\<And>x y. cmp x y \<Longrightarrow> key y \<le> key x" "\<And>x y. \<not> cmp x y \<Longrightarrow> key x \<le> key y"
    and "sorted_wrt (\<lambda>x y. key y \<le> (key x :: nat)) acc"
  shows "sorted_wrt (\<lambda>x y. key y \<le> key x) (fold (linear_insert cmp) xs acc)"
  using assms(3)
proof (induction xs arbitrary: acc)
  case Nil
  then show ?case by simp
next
  case (Cons x xs)
  show ?case
    by (simp only: fold_simps comp_apply) (rule Cons.IH, rule sorted_linear_insert[OF assms(1,2) Cons.prems])
qed

lemma descending_unique:
  assumes inj: "\<And>x y. key x = key y \<Longrightarrow> x = y"
    and "sorted_wrt (\<lambda>x y. key y \<le> (key x :: nat)) xs" "sorted_wrt (\<lambda>x y. key y \<le> key x) ys"
    and "mset xs = mset ys"
  shows "xs = ys"
proof -
  have sx: "sorted (rev (map key xs))" and sy: "sorted (rev (map key ys))"
    using assms(2,3) by (simp_all add: sorted_wrt_rev sorted_wrt_map sorted_map flip: rev_map)
  have "mset (map key xs) = mset (map key ys)"
    using assms(4) by (metis mset_map)
  then have "mset (rev (map key xs)) = mset (rev (map key ys))"
    by simp
  then have "rev (map key xs) = rev (map key ys)"
    using sx sy  by (metis sorted_sort_id sorted_list_of_multiset_mset)
  then have "map key xs = map key ys" by simp
  moreover have "inj key" using inj by (auto simp: inj_on_def)
  ultimately show ?thesis by simp
qed

lemma comparator_descends: "comparator mode x y \<Longrightarrow> sort_key mode y \<le> sort_key mode x"
  by (auto simp: comparator_key)

lemma not_comparator_descends: "\<not> comparator mode x y \<Longrightarrow> sort_key mode x \<le> sort_key mode y"
  by (auto simp: comparator_key)

lemma ordered_iff: "(\<not> comparator mode y x \<or> x = y) \<longleftrightarrow> sort_key mode y \<le> sort_key mode x"
  by (auto simp: comparator_key)

lemma insertion_sort_descending:
  "sorted_wrt (\<lambda>x y. sort_key mode y \<le> sort_key mode x) (insertion_sort (comparator mode) xs)"
  unfolding insertion_sort_def
  by (rule sorted_fold_insert[OF comparator_descends not_comparator_descends]) simp_all

text \<open>
  The result does not depend on the sorting algorithm: every arrangement of the same
  cards that descends along the key is the one the insertion computes.
\<close>

lemma insertion_sort_unique:
  assumes "mset ys = mset xs" "sorted_wrt (\<lambda>x y. sort_key mode y \<le> sort_key mode x) ys"
  shows "insertion_sort (comparator mode) xs = ys"
proof (rule descending_unique[OF sort_key_inj insertion_sort_descending assms(2)])
  show "mset (insertion_sort (comparator mode) xs) = mset ys"
    using assms(1) mset_insertion_sort[of "comparator mode" xs] by simp
qed

text \<open>
  The rank-first comparator is a strict weak ordering on every deck. The suit-first
  comparator is one exactly on the decks without an ace: it orders an ace before
  itself.
\<close>

lemma cmp_suit_first_ace: "cmp_suit_first a a \<longleftrightarrow> number a = 1"
  by (simp add: cmp_suit_first_def)

lemma strict_weak_rank_first: "strict_weak_ordering cmp_rank_first xs"
  unfolding strict_weak_ordering_def equiv_cmp_def cmp_rank_first_key by auto

lemma cmp_suit_first_no_ace:
  "number a \<noteq> 1 \<Longrightarrow> cmp_suit_first a b \<longleftrightarrow> key_suit_first b < key_suit_first a"
  by (auto simp: cmp_suit_first_key)

lemma strict_weak_suit_first:
  "strict_weak_ordering cmp_suit_first xs \<longleftrightarrow> (\<forall>a \<in> set xs. number a \<noteq> 1)"
proof
  assume "strict_weak_ordering cmp_suit_first xs"
  then have "\<forall>a \<in> set xs. \<not> cmp_suit_first a a"
    by (simp add: strict_weak_ordering_def)
  then show "\<forall>a \<in> set xs. number a \<noteq> 1"
    by (simp add: cmp_suit_first_ace)
next
  assume "\<forall>a \<in> set xs. number a \<noteq> 1"
  then have k: "cmp_suit_first a b \<longleftrightarrow> key_suit_first b < key_suit_first a"
    if "a \<in> set xs" for a b
    using that by (simp add: cmp_suit_first_no_ace)
  show "strict_weak_ordering cmp_suit_first xs"
    unfolding strict_weak_ordering_def equiv_cmp_def
    by (intro conjI ballI impI) (auto simp: k)
qed

lemma strict_weak_comparator:
  "strict_weak_ordering (comparator mode) xs \<longleftrightarrow>
     mode = rank_first_descending \<or> (\<forall>a \<in> set xs. number a \<noteq> 1)"
  by (cases mode) (simp_all add: comparator_def strict_weak_rank_first strict_weak_suit_first)

lemma sort_d_eq: "sort_d mode d = sort_with (comparator mode) d"
  by (cases mode) (simp_all add: sort_d_def comparator_def)

lemma sort_d_Returns:
  "strict_weak_ordering (comparator mode) (deck.pile d) \<Longrightarrow>
   sort_d mode d = (Returns (), d\<lparr>deck.pile := insertion_sort (comparator mode) (deck.pile d)\<rparr>)"
  by (simp add: sort_d_eq sort_with_def std_sort_def)

lemma sort_d_Undefined:
  "\<not> strict_weak_ordering (comparator mode) (deck.pile d) \<Longrightarrow> sort_d mode d = (Undefined, d)"
  by (simp add: sort_d_eq sort_with_def std_sort_def)

lemma strict_weak_set:
  "set xs = set ys \<Longrightarrow> strict_weak_ordering cmp xs \<longleftrightarrow> strict_weak_ordering cmp ys"
  unfolding strict_weak_ordering_def by simp

text \<open>
  Where the comparator is a strict weak ordering on the deck (rank first: always;
  suit first: no ace in the deck), \<open>sort\<close> returns, keeps the multiset of cards and
  the print mode, returns the same deck when applied again, and leaves a deck
  unchanged that is already in order.
\<close>

lemma sort_d_permutes_idempotent:
  assumes "strict_weak_ordering (comparator mode) (deck.pile d)"
  shows "fst (sort_d mode d) = Returns () \<and>
         mset (deck.pile (snd (sort_d mode d))) = mset (deck.pile d) \<and>
         output_stream (snd (sort_d mode d)) = output_stream d \<and>
         sort_d mode (snd (sort_d mode d)) = sort_d mode d \<and>
         (sorted_wrt (\<lambda>x y. \<not> comparator mode y x \<or> x = y) (deck.pile d) \<longrightarrow>
            sort_d mode d = (Returns (), d))"
proof -
  let ?s = "insertion_sort (comparator mode) (deck.pile d)"
  have r: "sort_d mode d = (Returns (), d\<lparr>deck.pile := ?s\<rparr>)"
    using assms by (rule sort_d_Returns)
  have "set ?s = set (deck.pile d)"
    using mset_insertion_sort[of "comparator mode" "deck.pile d"] by (rule mset_eq_setD)
  then have "strict_weak_ordering (comparator mode) ?s"
    using assms strict_weak_set by blast
  then have "strict_weak_ordering (comparator mode) (deck.pile (d\<lparr>deck.pile := ?s\<rparr>))"
    by simp
  then have r2: "sort_d mode (d\<lparr>deck.pile := ?s\<rparr>)
      = (Returns (), d\<lparr>deck.pile := ?s\<rparr>\<lparr>deck.pile :=
           insertion_sort (comparator mode) (deck.pile (d\<lparr>deck.pile := ?s\<rparr>))\<rparr>)"
    by (rule sort_d_Returns)
  have twice: "insertion_sort (comparator mode) ?s = ?s"
    by (rule insertion_sort_unique[OF refl insertion_sort_descending])
  have c4: "sort_d mode (snd (sort_d mode d)) = sort_d mode d"
    unfolding r snd_conv r2 by (simp add: twice)
  have ordered: "sort_d mode d = (Returns (), d)"
    if "sorted_wrt (\<lambda>x y. \<not> comparator mode y x \<or> x = y) (deck.pile d)"
  proof -
    from that have "sorted_wrt (\<lambda>x y. sort_key mode y \<le> sort_key mode x) (deck.pile d)"
      by (simp only: ordered_iff)
    then have "?s = deck.pile d"
      by (rule insertion_sort_unique[OF refl])
    then show ?thesis by (simp add: r)
  qed
  show ?thesis
  proof (intro conjI impI)
    show "fst (sort_d mode d) = Returns ()" by (simp add: r)
    show "mset (deck.pile (snd (sort_d mode d))) = mset (deck.pile d)"
      by (simp add: r mset_insertion_sort)
    show "output_stream (snd (sort_d mode d)) = output_stream d" by (simp add: r)
    show "sort_d mode (snd (sort_d mode d)) = sort_d mode d" by (rule c4)
  next
    assume "sorted_wrt (\<lambda>x y. \<not> comparator mode y x \<or> x = y) (deck.pile d)"
    then show "sort_d mode d = (Returns (), d)" by (rule ordered)
  qed
qed

lemma ace_before_king:
  assumes "i < length (insertion_sort cmp_rank_first xs)" "j < length (insertion_sort cmp_rank_first xs)"
    and "number (insertion_sort cmp_rank_first xs ! i) = 1"
      "number (insertion_sort cmp_rank_first xs ! j) = 13"
  shows "i < j"
proof (rule ccontr)
  let ?s = "insertion_sort cmp_rank_first xs"
  assume "\<not> i < j"
  moreover have "i \<noteq> j" using assms(3,4) by auto
  ultimately have ji: "j < i" by simp
  have "sorted_wrt (\<lambda>x y. key_rank_first y \<le> key_rank_first x) ?s"
    using insertion_sort_descending[of rank_first_descending xs]
    by (simp add: sort_key_def comparator_def)
  from sorted_wrt_nth_less[OF this ji assms(1)]
  have "key_rank_first (?s ! i) \<le> key_rank_first (?s ! j)" .
  moreover have "key_rank_first (?s ! i) \<ge> 64"
    using assms(3) by (simp add: key_rank_first_def rank_key_def)
  moreover have "key_rank_first (?s ! j) < 56"
    using assms(4) suit_bound[of "?s ! j"] by (simp add: key_rank_first_def rank_key_def)
  ultimately show False by simp
qed

text \<open>
  Claim C7. The rank-first comparator orders an ace before every card of another
  rank, two other different ranks by the higher rank, and equal ranks by the higher
  suit, where spade > heart > diamond > club as numbers. Sorting rank first always
  returns and keeps the cards; in the sorted deck every ace stands before every king;
  so a deck that holds an ace and a king has, after the sort, an ace at a position
  before a king.
\<close>

theorem ace_high:
  "(number a = 1 \<and> number b \<noteq> 1 \<longrightarrow> cmp_rank_first a b \<and> \<not> cmp_rank_first b a) \<and>
   (number a \<noteq> 1 \<and> number b \<noteq> 1 \<and> number a \<noteq> number b \<longrightarrow>
      cmp_rank_first a b = (number b < number a)) \<and>
   (number a = number b \<longrightarrow> cmp_rank_first a b = (suit b < suit a)) \<and>
   (suit b < suit a \<longleftrightarrow> uint (suit b) < uint (suit a)) \<and>
   CLUB < DIAMOND \<and> DIAMOND < HEART \<and> HEART < SPADE \<and>
   fst (sort_d rank_first_descending d) = Returns () \<and>
   mset (deck.pile (snd (sort_d rank_first_descending d))) = mset (deck.pile d) \<and>
   (\<forall>i j. i < length (deck.pile (snd (sort_d rank_first_descending d))) \<and>
          j < length (deck.pile (snd (sort_d rank_first_descending d))) \<and>
          number (deck.pile (snd (sort_d rank_first_descending d)) ! i) = 1 \<and>
          number (deck.pile (snd (sort_d rank_first_descending d)) ! j) = 13 \<longrightarrow> i < j) \<and>
   ((\<exists>x \<in> set (deck.pile d). number x = 1) \<and> (\<exists>x \<in> set (deck.pile d). number x = 13) \<longrightarrow>
      (\<exists>i j. i < j \<and> j < length (deck.pile (snd (sort_d rank_first_descending d))) \<and>
             number (deck.pile (snd (sort_d rank_first_descending d)) ! i) = 1 \<and>
             number (deck.pile (snd (sort_d rank_first_descending d)) ! j) = 13))"
proof -
  let ?s = "insertion_sort cmp_rank_first (deck.pile d)"
  have r: "sort_d rank_first_descending d = (Returns (), d\<lparr>deck.pile := ?s\<rparr>)"
    using sort_d_Returns[of rank_first_descending d]
    by (simp add: comparator_def strict_weak_rank_first)
  have s: "deck.pile (snd (sort_d rank_first_descending d)) = ?s"
    by (simp add: r)
  have c0: "fst (sort_d rank_first_descending d) = Returns ()"
    by (simp add: r)
  have m: "mset ?s = mset (deck.pile d)"
    by (rule mset_insertion_sort)
  have c1: "number a = 1 \<and> number b \<noteq> 1 \<longrightarrow> cmp_rank_first a b \<and> \<not> cmp_rank_first b a"
    by (auto simp: cmp_rank_first_def)
  have c2: "number a \<noteq> 1 \<and> number b \<noteq> 1 \<and> number a \<noteq> number b \<longrightarrow>
      cmp_rank_first a b = (number b < number a)"
    by (auto simp: cmp_rank_first_def)
  have c3: "number a = number b \<longrightarrow> cmp_rank_first a b = (suit b < suit a)"
    by (auto simp: cmp_rank_first_def)
  have c4: "suit b < suit a \<longleftrightarrow> uint (suit b) < uint (suit a)"
    by (simp add: word_less_def)
  have c5: "CLUB < DIAMOND \<and> DIAMOND < HEART \<and> HEART < SPADE"
    by (simp add: CLUB_def DIAMOND_def HEART_def SPADE_def)
  have c6: "\<forall>i j. i < length ?s \<and> j < length ?s \<and> number (?s ! i) = 1 \<and> number (?s ! j) = 13 \<longrightarrow> i < j"
    using ace_before_king by blast
  have c7: "(\<exists>x \<in> set (deck.pile d). number x = 1) \<and> (\<exists>x \<in> set (deck.pile d). number x = 13) \<longrightarrow>
      (\<exists>i j. i < j \<and> j < length ?s \<and> number (?s ! i) = 1 \<and> number (?s ! j) = 13)"
  proof
    assume h: "(\<exists>x \<in> set (deck.pile d). number x = 1) \<and> (\<exists>x \<in> set (deck.pile d). number x = 13)"
    have "set ?s = set (deck.pile d)"
      using m by (rule mset_eq_setD)
    with h obtain x y where "x \<in> set ?s" "number x = 1" "y \<in> set ?s" "number y = 13"
      by auto
    then obtain i j where ij: "i < length ?s" "?s ! i = x" "j < length ?s" "?s ! j = y"
      by (auto simp: in_set_conv_nth)
    with \<open>number x = 1\<close> \<open>number y = 13\<close> have "i < j"
      using ace_before_king[of i "deck.pile d" j] by simp
    with ij \<open>number x = 1\<close> \<open>number y = 13\<close>
    show "\<exists>i j. i < j \<and> j < length ?s \<and> number (?s ! i) = 1 \<and> number (?s ! j) = 13"
      by blast
  qed
  show ?thesis
    unfolding s using c0 m c1 c2 c3 c4 c5 c6 c7 by blast
qed

theorem ace_high_witness:
  "(number (card_ctor 1 1) = 1 \<and> number (card_ctor 3 13) \<noteq> 1) \<and>
   cmp_rank_first (card_ctor 1 1) (card_ctor 3 13) \<and>
   \<not> cmp_rank_first (card_ctor 3 13) (card_ctor 1 1) \<and>
   (number (card_ctor 0 2) \<noteq> 1 \<and> number (card_ctor 3 13) \<noteq> 1 \<and>
    number (card_ctor 0 2) \<noteq> number (card_ctor 3 13)) \<and>
   cmp_rank_first (card_ctor 0 2) (card_ctor 3 13)
     = (number (card_ctor 3 13) < number (card_ctor 0 2)) \<and>
   number (card_ctor 2 13) = number (card_ctor 3 13) \<and>
   cmp_rank_first (card_ctor 2 13) (card_ctor 3 13)
     = (suit (card_ctor 3 13) < suit (card_ctor 2 13)) \<and>
   (\<exists>x \<in> set (deck.pile king_ace_hand). number x = 1) \<and>
   (\<exists>x \<in> set (deck.pile king_ace_hand). number x = 13) \<and>
   (\<exists>i j. i < j \<and> j < length (deck.pile (snd (sort_d rank_first_descending king_ace_hand))) \<and>
          number (deck.pile (snd (sort_d rank_first_descending king_ace_hand)) ! i) = 1 \<and>
          number (deck.pile (snd (sort_d rank_first_descending king_ace_hand)) ! j) = 13)"
proof -
  have h1: "number (card_ctor 1 1) = 1 \<and> number (card_ctor 3 13) \<noteq> 1"
    by (simp add: card_ctor_def)
  have h2: "number (card_ctor 0 2) \<noteq> 1 \<and> number (card_ctor 3 13) \<noteq> 1 \<and>
    number (card_ctor 0 2) \<noteq> number (card_ctor 3 13)"
    by (simp add: card_ctor_def)
  have h3: "number (card_ctor 2 13) = number (card_ctor 3 13)"
    by (simp add: card_ctor_def)
  have h4: "(\<exists>x \<in> set (deck.pile king_ace_hand). number x = 1) \<and>
            (\<exists>x \<in> set (deck.pile king_ace_hand). number x = 13)"
    by (simp add: king_ace_hand_def card_ctor_def)
  show ?thesis
    using h1 h2 h3 h4
      ace_high[of "card_ctor 1 1" "card_ctor 3 13" king_ace_hand]
      ace_high[of "card_ctor 0 2" "card_ctor 3 13" king_ace_hand]
      ace_high[of "card_ctor 2 13" "card_ctor 3 13" king_ace_hand]
    by blast
qed

lemma ace_of_spades_before_all:
  assumes "number a = 1" "suit a = 3"
  shows "cmp_suit_first a y"
proof (cases "suit y = 3")
  case True
  with assms show ?thesis by (simp add: cmp_suit_first_def)
next
  case False
  have "unat (suit y) < 4" by (rule suit_bound)
  with False have "unat (suit y) < 3"
    by (simp add: word_unat_eq_iff)
  with assms False show ?thesis
    by (simp add: cmp_suit_first_def word_less_nat_alt)
qed

lemma sort_d_suit_first_ace:
  assumes "c \<in> set (deck.pile d)" "number c = 1"
  shows "sort_d suit_first_descending d = (Undefined, d)"
proof (rule sort_d_Undefined)
  show "\<not> strict_weak_ordering (comparator suit_first_descending) (deck.pile d)"
    using assms by (auto simp: strict_weak_comparator)
qed

text \<open>
  Claim C8 fails in the suit-first mode. Its comparator does not guard the case of
  equal ranks as the rank-first one does (\<open>a.number != b.number\<close>): for two cards of
  one suit it answers \<open>a.number == 1 || ...\<close>, which is true for an ace against an
  equal ace. So the comparator is no strict weak ordering on a hand that holds an
  ace, and \<open>std::sort\<close> is undefined there: on the hand with the ace of spades twice,
  and on the hand of 17 cards with the ace of spades at positions 1 and 8, where the
  rank-first sort returns. The ace of spades is ordered before every card, itself
  included (\<open>ace_of_spades_before_all\<close>), so a loop that runs until the comparator
  answers no never stops on it.
\<close>

theorem suit_first_sort_undefined:
  "cmp_suit_first (card_ctor 3 1) (card_ctor 3 1) \<and>
   sort_d suit_first_descending two_aces = (Undefined, two_aces) \<and>
   sort_d suit_first_descending aces_at_1_and_8 = (Undefined, aces_at_1_and_8) \<and>
   sort_d rank_first_descending two_aces = (Returns (), two_aces) \<and>
   fst (sort_d rank_first_descending aces_at_1_and_8) = Returns ()"
proof -
  have ace: "number (card_ctor 3 1) = 1"
    by (simp add: card_ctor_def)
  have c: "cmp_suit_first (card_ctor 3 1) (card_ctor 3 1)"
    using ace by (simp add: cmp_suit_first_ace)
  have two: "sort_d suit_first_descending two_aces = (Undefined, two_aces)"
    by (rule sort_d_suit_first_ace[OF _ ace]) (simp add: two_aces_def)
  have many: "sort_d suit_first_descending aces_at_1_and_8 = (Undefined, aces_at_1_and_8)"
    by (rule sort_d_suit_first_ace[OF _ ace]) (simp add: aces_at_1_and_8_def)
  have r2: "sort_d rank_first_descending two_aces = (Returns (), two_aces)"
    by code_simp
  have r17: "fst (sort_d rank_first_descending aces_at_1_and_8) = Returns ()"
    using sort_d_Returns[of rank_first_descending aces_at_1_and_8]
    by (simp add: strict_weak_comparator)
  show ?thesis
    using c two many r2 r17 by simp
qed

lemma sort_d_permutes_idempotent_example:
  "strict_weak_ordering (comparator rank_first_descending) (deck.pile sorted_hand) \<and>
   sorted_wrt (\<lambda>x y. \<not> comparator rank_first_descending y x \<or> x = y) (deck.pile sorted_hand) \<and>
   sort_d rank_first_descending sorted_hand = (Returns (), sorted_hand)"
proof -
  have swo: "strict_weak_ordering (comparator rank_first_descending) (deck.pile sorted_hand)"
    by (simp add: strict_weak_comparator)
  have ord: "sorted_wrt (\<lambda>x y. \<not> comparator rank_first_descending y x \<or> x = y)
      (deck.pile sorted_hand)"
    by code_simp
  show ?thesis
    using swo ord sort_d_permutes_idempotent[OF swo] by blast
qed

section \<open>Dealing\<close>

lemma filter_eq_upt: "i < p \<Longrightarrow> filter (\<lambda>x. x = i) [0..<p] = [i]"
  by (induction p) (auto simp: less_Suc_eq)

lemma filter_mod_block:
  assumes "i < p"
  shows "filter (\<lambda>j. j mod p = i) [a * p..<a * p + p] = [a * p + i]"
proof -
  have "[a * p..<a * p + p] = map (\<lambda>x. x + a * p) [0..<p]"
    using map_add_upt[of "a * p" p] by (simp add: add.commute)
  then have "filter (\<lambda>j. j mod p = i) [a * p..<a * p + p]
      = map (\<lambda>x. x + a * p) (filter (\<lambda>x. (x + a * p) mod p = i) [0..<p])"
    by (simp add: filter_map comp_def)
  also have "filter (\<lambda>x. (x + a * p) mod p = i) [0..<p] = filter (\<lambda>x. x = i) [0..<p]"
    by (rule filter_cong) auto
  finally show ?thesis using assms by (simp add: filter_eq_upt)
qed

lemma filter_mod_upt:
  assumes "i < p"
  shows "filter (\<lambda>j. j mod p = i) [0..<k * p] = map (\<lambda>j. j * p + i) [0..<k]"
proof (induction k)
  case 0
  then show ?case by simp
next
  case (Suc k)
  have "[0..<Suc k * p] = [0..<k * p] @ [k * p..<k * p + p]"
    using upt_add_eq_append[of 0 "k * p" p] by (simp add: add.commute)
  then show ?case
    using Suc filter_mod_block[OF assms, of k] by simp
qed

lemma deal_loop_Suc:
  "unat player_no < length (player_card t) \<Longrightarrow> \<not> empty_d (poker.pile t) \<Longrightarrow>
   deal_loop (Suc n) player_no t = deal_loop n (next_player player_no t) (deal_step player_no t)"
  by (simp add: deal_step_def next_player_def Let_def)

lemma unat_next_player:
  assumes "unat player_no < unat (players t)"
  shows "unat (next_player player_no t) = Suc (unat player_no) mod unat (players t)"
proof -
  have lt: "unat player_no + 1 < 2 ^ 32"
    using assms unsigned_less[of "players t", where 'a=nat] by simp
  then have u: "unat (player_no + 1) = unat player_no + 1"
    by (simp add: unat_word_ariths)
  show ?thesis
  proof (cases "player_no + 1 \<ge> players t")
    case True
    then have "unat (players t) \<le> unat player_no + 1"
      by (simp add: word_le_nat_alt u)
    with assms have "unat (players t) = Suc (unat player_no)" by simp
    with True show ?thesis by (simp add: next_player_def)
  next
    case False
    then have "unat player_no + 1 < unat (players t)"
      by (simp add: word_le_nat_alt u)
    with False show ?thesis by (simp add: next_player_def u)
  qed
qed

lemma dealt_hand_0: "dealt_hand p pn 0 cs i = []"
  by (simp add: dealt_hand_def)

lemma dealt_hand_Suc:
  assumes "cs \<noteq> []" "pn < p"
  shows "dealt_hand p pn (Suc n) cs i
     = (if i = pn then [last cs] else []) @ dealt_hand p (Suc pn mod p) n (butlast cs) i"
proof -
  have r: "rev cs = last cs # rev (butlast cs)"
    using assms(1) by (metis append_butlast_last_id rev.simps(2) rev_rev_ident rev_swap)
  have u: "[0..<Suc n] = 0 # map Suc [0..<n]"
    by (simp add: upt_conv_Cons map_Suc_upt del: upt_Suc)
  have m: "Suc (q + j) mod p = (Suc q mod p + j) mod p" for q j
    by (metis add_Suc mod_add_left_eq)
  have "filter (\<lambda>j. (pn + j) mod p = i) [0..<Suc n]
     = (if i = pn then [0] else []) @ map Suc (filter (\<lambda>j. (Suc pn mod p + j) mod p = i) [0..<n])"
    unfolding u using assms(2) by (auto simp: filter_map comp_def m)
  then show ?thesis
    unfolding dealt_hand_def by (simp add: r comp_def)
qed

lemma deal_loop_spec:
  assumes "length (player_card t) = unat (players t)" "unat pn < unat (players t)"
    "n \<le> size_d (poker.pile t)"
  shows "deal_loop n pn t =
    (Returns (),
     t\<lparr>player_card :=
         map (\<lambda>i. (player_card t ! i)\<lparr>deck.pile := hand t i @
                dealt_hand (unat (players t)) (unat pn) n (deck.pile (poker.pile t)) i\<rparr>)
           [0..<unat (players t)],
       poker.pile := (poker.pile t)\<lparr>deck.pile :=
         take (size_d (poker.pile t) - n) (deck.pile (poker.pile t))\<rparr>\<rparr>)"
  using assms
proof (induction n arbitrary: pn t)
  case 0
  have "map (\<lambda>i. (player_card t ! i)\<lparr>deck.pile := hand t i\<rparr>) [0..<unat (players t)] = player_card t"
    using 0(1) by (intro nth_equalityI) (simp_all add: hand_def)
  then show ?case by (simp add: dealt_hand_0 size_d_def)
next
  case (Suc n)
  let ?p = "unat (players t)"
  let ?cs = "deck.pile (poker.pile t)"
  let ?t = "deal_step pn t"
  have ne: "?cs \<noteq> []" using Suc.prems(3) by (auto simp: size_d_def)
  have idx: "unat pn < length (player_card t)" using Suc.prems by simp
  have step: "deal_loop (Suc n) pn t = deal_loop n (next_player pn t) ?t"
    using idx ne by (intro deal_loop_Suc) (simp_all add: empty_d_def size_d_def)
  have pl: "players ?t = players t" by (simp add: deal_step_def)
  have len: "length (player_card ?t) = unat (players ?t)"
    using Suc.prems(1) by (simp add: deal_step_def)
  have np: "unat (next_player pn t) = Suc (unat pn) mod ?p"
    using Suc.prems(2) by (rule unat_next_player)
  then have nlt: "unat (next_player pn t) < unat (players ?t)"
    using Suc.prems(2) by (simp add: pl)
  have cs': "deck.pile (poker.pile ?t) = butlast ?cs"
    by (simp add: deal_step_def pop_back_def)
  have sz: "n \<le> size_d (poker.pile ?t)"
    using Suc.prems(3) by (simp add: size_d_def cs')
  have hands: "hand ?t i = hand t i @ (if i = unat pn then [last ?cs] else [])" if "i < ?p" for i
    using that idx Suc.prems(1)
    by (simp add: hand_def deal_step_def push_back_def back_d_def nth_list_update)
  have os: "(player_card ?t ! i)\<lparr>deck.pile := xs\<rparr> = (player_card t ! i)\<lparr>deck.pile := xs\<rparr>" if "i < ?p" for i xs
    using that idx Suc.prems(1)
    by (simp add: deal_step_def push_back_def nth_list_update)
  have IH: "deal_loop n (next_player pn t) ?t =
    (Returns (),
     ?t\<lparr>player_card :=
         map (\<lambda>i. (player_card ?t ! i)\<lparr>deck.pile := hand ?t i @
                dealt_hand (unat (players ?t)) (unat (next_player pn t)) n
                  (deck.pile (poker.pile ?t)) i\<rparr>)
           [0..<unat (players ?t)],
       poker.pile := (poker.pile ?t)\<lparr>deck.pile :=
         take (size_d (poker.pile ?t) - n) (deck.pile (poker.pile ?t))\<rparr>\<rparr>)"
    by (rule Suc.IH[OF len nlt sz])
  have hd: "(player_card ?t ! i)\<lparr>deck.pile := hand ?t i @
               dealt_hand ?p (unat (next_player pn t)) n (butlast ?cs) i\<rparr>
      = (player_card t ! i)\<lparr>deck.pile := hand t i @ dealt_hand ?p (unat pn) (Suc n) ?cs i\<rparr>"
    if "i < ?p" for i
    using that by (simp add: os hands np dealt_hand_Suc[OF ne Suc.prems(2)])
  have mp: "map (\<lambda>i. (player_card ?t ! i)\<lparr>deck.pile := hand ?t i @
                dealt_hand (unat (players ?t)) (unat (next_player pn t)) n
                  (deck.pile (poker.pile ?t)) i\<rparr>)
           [0..<unat (players ?t)]
      = map (\<lambda>i. (player_card t ! i)\<lparr>deck.pile := hand t i @
                dealt_hand ?p (unat pn) (Suc n) ?cs i\<rparr>) [0..<?p]"
    unfolding pl cs' by (rule map_cong[OF refl]) (simp add: hd)
  have "take (size_d (poker.pile ?t) - n) (butlast ?cs) = take (size_d (poker.pile t) - Suc n) ?cs"
    by (simp add: size_d_def cs' butlast_conv_take min_def)
  then have pp: "(poker.pile ?t)\<lparr>deck.pile :=
         take (size_d (poker.pile ?t) - n) (deck.pile (poker.pile ?t))\<rparr>
      = (poker.pile t)\<lparr>deck.pile := take (size_d (poker.pile t) - Suc n) ?cs\<rparr>"
    unfolding cs' by (simp add: deal_step_def pop_back_def)
  show ?case
    unfolding step IH mp pp by (simp add: deal_step_def)
qed


text \<open>
  Claim C3, amended. In a game with one hand per player, when \<open>k\<close> times the number
  of players \<open>p\<close> fits the \<open>unsigned int\<close> that holds it (is below \<open>2 ^ 32\<close>) and the
  pile has at least that many cards, \<open>deal k\<close> returns; the pile loses its last
  \<open>k * p\<close> cards; hand \<open>i\<close> gains, in this order, the cards at positions
  \<open>i, p + i, 2 * p + i, ...\<close> counted from the end of the pile, \<open>k\<close> cards in all.
\<close>

theorem deal_round_robin:
  assumes "wf_poker t"
    and "unat k * unat (players t) < 2 ^ 32"
    and "unat k * unat (players t) \<le> size_d (poker.pile t)"
  shows "fst (deal k t) = Returns () \<and>
         players (snd (deal k t)) = players t \<and>
         length (player_card (snd (deal k t))) = unat (players t) \<and>
         deck.pile (poker.pile (snd (deal k t)))
           = take (size_d (poker.pile t) - unat k * unat (players t)) (deck.pile (poker.pile t)) \<and>
         size_d (poker.pile (snd (deal k t))) + unat k * unat (players t) = size_d (poker.pile t) \<and>
         (\<forall>i < unat (players t).
            hand (snd (deal k t)) i
              = hand t i @
                map (\<lambda>j. rev (deck.pile (poker.pile t)) ! (j * unat (players t) + i)) [0..<unat k] \<and>
            length (hand (snd (deal k t)) i) = length (hand t i) + unat k)"
proof -
  let ?p = "unat (players t)"
  let ?n = "unat k * ?p"
  let ?cs = "deck.pile (poker.pile t)"
  have n: "unat (k * players t) = ?n"
    using assms(2) by (simp add: unat_word_ariths)
  have len: "length (player_card t) = ?p" and pos: "unat (0 :: 32 word) < ?p"
    using assms(1) by (simp_all add: wf_poker_def unat_gt_0)
  have d: "deal k t =
    (Returns (),
     t\<lparr>player_card :=
         map (\<lambda>i. (player_card t ! i)\<lparr>deck.pile := hand t i @ dealt_hand ?p 0 ?n ?cs i\<rparr>) [0..<?p],
       poker.pile := (poker.pile t)\<lparr>deck.pile := take (size_d (poker.pile t) - ?n) ?cs\<rparr>\<rparr>)"
    unfolding deal_def n using deal_loop_spec[OF len pos assms(3)] by simp
  have h: "dealt_hand ?p 0 ?n ?cs i = map (\<lambda>j. rev ?cs ! (j * ?p + i)) [0..<unat k]" if "i < ?p" for i
    using filter_mod_upt[OF that, of "unat k"] by (simp add: dealt_hand_def comp_def)
  have hands: "hand (snd (deal k t)) i = hand t i @ map (\<lambda>j. rev ?cs ! (j * ?p + i)) [0..<unat k]"
    if "i < ?p" for i
    using that by (simp add: d hand_def h)
  show ?thesis
  proof (intro conjI allI impI)
    show "fst (deal k t) = Returns ()" by (simp add: d)
    show "players (snd (deal k t)) = players t" by (simp add: d)
    show "length (player_card (snd (deal k t))) = ?p" by (simp add: d)
    show "deck.pile (poker.pile (snd (deal k t))) = take (size_d (poker.pile t) - ?n) ?cs"
      by (simp add: d)
    show "size_d (poker.pile (snd (deal k t))) + ?n = size_d (poker.pile t)"
      using assms(3) by (simp add: d size_d_def)
  next
    fix i assume "i < ?p"
    then show "hand (snd (deal k t)) i = hand t i @ map (\<lambda>j. rev ?cs ! (j * ?p + i)) [0..<unat k]"
      by (rule hands)
    then show "length (hand (snd (deal k t)) i) = length (hand t i) + unat k"
      by simp
  qed
qed

theorem deal_round_robin_witness:
  "wf_poker fresh_game \<and>
   unat (3 :: 32 word) * unat (players fresh_game) < 2 ^ 32 \<and>
   unat (3 :: 32 word) * unat (players fresh_game) \<le> size_d (poker.pile fresh_game) \<and>
   fst (deal 3 fresh_game) = Returns () \<and>
   size_d (poker.pile (snd (deal 3 fresh_game))) + unat (3 :: 32 word) * unat (players fresh_game)
     = size_d (poker.pile fresh_game) \<and>
   (0 :: nat) < unat (players fresh_game) \<and>
   length (hand (snd (deal 3 fresh_game)) 0) = length (hand fresh_game 0) + unat (3 :: 32 word)"
proof -
  have wf: "wf_poker fresh_game"
    by code_simp
  have fits: "unat (3 :: 32 word) * unat (players fresh_game) < 2 ^ 32"
    by (simp add: fresh_game_def)
  have enough: "unat (3 :: 32 word) * unat (players fresh_game) \<le> size_d (poker.pile fresh_game)"
    by code_simp
  have p0: "(0 :: nat) < unat (players fresh_game)"
    by (simp add: fresh_game_def)
  show ?thesis
    using wf fits enough p0 deal_round_robin[OF wf fits enough] by blast
qed

text \<open>
  Claim C3, as stated, fails where \<open>k * p\<close> does not fit: with 65536 players and a
  pile of 4294967300 cards, \<open>deal 65536\<close> computes \<open>65536 * 65536 = 0\<close>, deals
  nothing and returns; the pile holds the \<open>k * p\<close> cards the claim asks for.
\<close>

theorem deal_wraps_around:
  "poker_ctor 82595525 65536 False = Returns wrap_game \<and>
   unat (65536 :: 32 word) * unat (players wrap_game) \<le> size_d (poker.pile wrap_game) \<and>
   deal 65536 wrap_game = (Returns (), wrap_game) \<and>
   size_d (poker.pile (snd (deal 65536 wrap_game))) + unat (65536 :: 32 word) * unat (players wrap_game)
     \<noteq> size_d (poker.pile wrap_game) \<and>
   length (hand (snd (deal 65536 wrap_game)) 0) \<noteq> length (hand wrap_game 0) + unat (65536 :: 32 word)"
proof -
  have c: "poker_ctor 82595525 65536 False = Returns wrap_game"
    using poker_ctor_Returns[of 65536 82595525 False] by (simp add: wrap_game_def)
  have sz: "size_d (poker.pile wrap_game) = 4294967300"
    using length_source_decks[of 82595525 False] by (simp add: wrap_game_def size_d_def)
  have d: "deal 65536 wrap_game = (Returns (), wrap_game)"
    by (simp add: deal_def wrap_game_def)
  have h: "hand wrap_game 0 = []"
    by (simp add: hand_def wrap_game_def new_deck_def)
  have p: "unat (players wrap_game) = 65536"
    by (simp add: wrap_game_def)
  show ?thesis
    by (simp add: c d sz h p)
qed

section \<open>Shuffling\<close>

lemma floor_unif_less: "0 < sz \<Longrightarrow> floor_unif sz r < sz"
  by (simp add: floor_unif_def)

lemma floor_unif_small: "sz < 2 \<Longrightarrow> floor_unif sz r = 0"
  using less_2_cases[of sz] by (auto simp: floor_unif_def)

lemma draw_b_SCons:
  "draw_b sz a (x ## g) = (if a = floor_unif sz x then draw_b sz a g else Some (floor_unif sz x, g))"
  by (subst draw_b.simps) (simp add: Let_def)

lemma draw_b_result:
  assumes "draw_b sz a g = Some r"
  shows "fst r \<noteq> a \<and> (\<exists>x. fst r = floor_unif sz x)"
proof (rule draw_b.raw_induct[where P = "\<lambda>sz a g r. fst r \<noteq> a \<and> (\<exists>x. fst r = floor_unif sz x)", OF _ assms])
  fix draw_b' :: "nat \<Rightarrow> nat \<Rightarrow> nat stream \<Rightarrow> (nat \<times> nat stream) option"
  fix sz a g r
  assume IH: "\<And>sz a g r. draw_b' sz a g = Some r \<Longrightarrow> fst r \<noteq> a \<and> (\<exists>x. fst r = floor_unif sz x)"
    and body: "(let b = floor_unif sz (shd g) in if a = b then draw_b' sz a (stl g) else Some (b, stl g)) = Some r"
  show "fst r \<noteq> a \<and> (\<exists>x. fst r = floor_unif sz x)"
  proof (cases "a = floor_unif sz (shd g)")
    case True
    with body have "draw_b' sz a (stl g) = Some r" by (simp add: Let_def)
    then show ?thesis by (rule IH)
  next
    case False
    with body have "r = (floor_unif sz (shd g), stl g)" by (simp add: Let_def)
    with False show ?thesis by auto
  qed
qed

lemma draw_b_returns_iff:
  "draw_b sz a g \<noteq> None \<longleftrightarrow> (\<exists>k. floor_unif sz (g !! k) \<noteq> a)"
proof
  assume "draw_b sz a g \<noteq> None"
  then obtain r where r: "draw_b sz a g = Some r" by auto
  show "\<exists>k. floor_unif sz (g !! k) \<noteq> a"
  proof (rule draw_b.raw_induct[where P = "\<lambda>sz a g r. \<exists>k. floor_unif sz (g !! k) \<noteq> a", OF _ r])
    fix draw_b' :: "nat \<Rightarrow> nat \<Rightarrow> nat stream \<Rightarrow> (nat \<times> nat stream) option"
    fix sz a g r
    assume IH: "\<And>sz a g r. draw_b' sz a g = Some r \<Longrightarrow> \<exists>k. floor_unif sz (g !! k) \<noteq> a"
      and body: "(let b = floor_unif sz (shd g) in if a = b then draw_b' sz a (stl g) else Some (b, stl g)) = Some r"
    show "\<exists>k. floor_unif sz (g !! k) \<noteq> a"
    proof (cases "a = floor_unif sz (shd g)")
      case True
      with body have "draw_b' sz a (stl g) = Some r" by (simp add: Let_def)
      then obtain k where "floor_unif sz (stl g !! k) \<noteq> a" using IH by blast
      then have "floor_unif sz (g !! Suc k) \<noteq> a" by simp
      then show ?thesis ..
    next
      case False
      then have "floor_unif sz (g !! 0) \<noteq> a" by simp
      then show ?thesis ..
    qed
  qed
next
  assume "\<exists>k. floor_unif sz (g !! k) \<noteq> a"
  then obtain k where "floor_unif sz (g !! k) \<noteq> a" ..
  then show "draw_b sz a g \<noteq> None"
  proof (induction k arbitrary: g)
    case 0
    then show ?case by (subst draw_b.simps) (auto simp: Let_def)
  next
    case (Suc k)
    then have "draw_b sz a (stl g) \<noteq> None" by simp
    then show ?case by (subst draw_b.simps) (auto simp: Let_def)
  qed
qed

lemma draw_b_small: "sz < 2 \<Longrightarrow> draw_b sz (floor_unif sz x) g = None"
proof -
  assume "sz < 2"
  then have "\<not> (\<exists>k. floor_unif sz (g !! k) \<noteq> floor_unif sz x)"
    by (simp add: floor_unif_small)
  then show ?thesis
    using draw_b_returns_iff[of sz "floor_unif sz x" g] by blast
qed

lemma shuffle_loop_small: "sz < 2 \<Longrightarrow> shuffle_loop (Suc n) sz d g = None"
  by (simp add: draw_b_small Let_def)

lemma size_swap: "size_d (swap a b d) = size_d d"
  by (simp add: swap_def size_d_def)

lemma mset_swap_d: "a < size_d d \<Longrightarrow> b < size_d d \<Longrightarrow> mset (deck.pile (swap a b d)) = mset (deck.pile d)"
  by (simp add: swap_def size_d_def mset_swap)

lemma shuffle_loop_mset:
  "shuffle_loop n sz d g = Some d' \<Longrightarrow> sz \<le> size_d d \<Longrightarrow>
   mset (deck.pile d') = mset (deck.pile d) \<and> output_stream d' = output_stream d"
proof (induction n arbitrary: d g)
  case 0
  then show ?case by simp
next
  case (Suc n)
  let ?a = "floor_unif sz (shd g)"
  from Suc.prems(1) obtain b g' where b: "draw_b sz ?a (stl g) = Some (b, g')"
    and rest: "shuffle_loop n sz (swap ?a b d) g' = Some d'"
    by (auto simp: Let_def split: option.splits)
  have pos: "0 < sz"
  proof (rule ccontr)
    assume "\<not> 0 < sz"
    then have "draw_b sz ?a (stl g) = None" by (intro draw_b_small) simp
    with b show False by simp
  qed
  from draw_b_result[OF b] obtain x where "b = floor_unif sz x" by auto
  with pos have "b < sz" by (simp add: floor_unif_less)
  moreover have "?a < sz" using pos by (rule floor_unif_less)
  ultimately have ab: "?a < size_d d" "b < size_d d" using Suc.prems(2) by simp_all
  have "mset (deck.pile d') = mset (deck.pile (swap ?a b d)) \<and> output_stream d' = output_stream (swap ?a b d)"
    using rest Suc.prems(2) by (intro Suc.IH) (simp_all add: size_swap)
  then show ?case using mset_swap_d[OF ab] by (simp add: swap_def)
qed

lemma shuffle_size_le: "shuffle_size d \<le> size_d d"
  by (simp add: shuffle_size_def unat_of_nat)

lemma shuffle_loop_can_return: "2 \<le> sz \<Longrightarrow> \<exists>g. shuffle_loop n sz d g \<noteq> None"
proof (induction n arbitrary: d)
  case 0
  then show ?case by simp
next
  case (Suc n)
  have f0: "floor_unif sz 0 = 0" and f1: "floor_unif sz (Suc 0) = Suc 0"
    using Suc.prems by (simp_all add: floor_unif_def)
  from Suc.IH[OF Suc.prems, of "swap 0 1 d"]
  obtain g where "shuffle_loop n sz (swap 0 (Suc 0) d) g \<noteq> None"
    by auto
  then have "shuffle_loop (Suc n) sz d (0 ## 1 ## g) \<noteq> None"
    by (simp add: draw_b_SCons f0 f1)
  then show ?case ..
qed

text \<open>
  Outputs that come as pairs of different indices meet the condition on the redraws:
  every sequence of choices of two distinct indices is covered.
\<close>

lemma distinct_pairs_redraws_differ:
  assumes "\<And>i. floor_unif sz (g !! (2 * i)) \<noteq> floor_unif sz (g !! (2 * i + 1))"
  shows "redraws_differ sz g"
  unfolding redraws_differ_def
proof
  fix n
  show "\<exists>k. floor_unif sz (g !! (n + Suc k)) \<noteq> floor_unif sz (g !! n)"
  proof (cases "even n")
    case True
    then obtain i where "n = 2 * i" by (auto elim: evenE)
    with assms[of i] have "floor_unif sz (g !! (n + Suc 0)) \<noteq> floor_unif sz (g !! n)"
      by (simp add: eq_commute)
    then show ?thesis ..
  next
    case False
    then obtain i where n: "n = 2 * i + 1" by (auto elim: oddE)
    from assms[of "Suc i"]
    have "floor_unif sz (g !! (n + Suc 0)) \<noteq> floor_unif sz (g !! (n + Suc (Suc 0)))"
      by (simp add: n)
    then have "floor_unif sz (g !! (n + Suc 0)) \<noteq> floor_unif sz (g !! n)
        \<or> floor_unif sz (g !! (n + Suc (Suc 0))) \<noteq> floor_unif sz (g !! n)"
      by auto
    then show ?thesis by blast
  qed
qed

lemma redraws_differ_sdrop: "redraws_differ sz g \<Longrightarrow> redraws_differ sz (sdrop m g)"
  unfolding redraws_differ_def
proof
  fix n
  assume a: "\<forall>n. \<exists>k. floor_unif sz (g !! (n + Suc k)) \<noteq> floor_unif sz (g !! n)"
  then obtain k where "floor_unif sz (g !! (m + n + Suc k)) \<noteq> floor_unif sz (g !! (m + n))"
    by blast
  then have "floor_unif sz (sdrop m g !! (n + Suc k)) \<noteq> floor_unif sz (sdrop m g !! n)"
    by (simp add: sdrop_snth add.assoc)
  then show "\<exists>k. floor_unif sz (sdrop m g !! (n + Suc k)) \<noteq> floor_unif sz (sdrop m g !! n)" ..
qed

lemma redraws_differ_size: "redraws_differ sz g \<Longrightarrow> 2 \<le> sz"
proof (rule ccontr)
  assume f: "redraws_differ sz g" and "\<not> 2 \<le> sz"
  then have "sz < 2" by simp
  then have "floor_unif sz r = 0" for r by (rule floor_unif_small)
  with f show False by (simp add: redraws_differ_def)
qed

lemma draw_b_rest:
  assumes "draw_b sz a g = Some r"
  shows "\<exists>m. snd r = sdrop m g"
proof (rule draw_b.raw_induct[where P = "\<lambda>sz a g r. \<exists>m. snd r = sdrop m g", OF _ assms])
  fix draw_b' :: "nat \<Rightarrow> nat \<Rightarrow> nat stream \<Rightarrow> (nat \<times> nat stream) option"
  fix sz a g r
  assume IH: "\<And>sz a g r. draw_b' sz a g = Some r \<Longrightarrow> \<exists>m. snd r = sdrop m g"
    and body: "(let b = floor_unif sz (shd g) in
                if a = b then draw_b' sz a (stl g) else Some (b, stl g)) = Some r"
  show "\<exists>m. snd r = sdrop m g"
  proof (cases "a = floor_unif sz (shd g)")
    case True
    with body have "draw_b' sz a (stl g) = Some r" by (simp add: Let_def)
    then obtain m where "snd r = sdrop m (stl g)" using IH by blast
    then have "snd r = sdrop (Suc m) g" by simp
    then show ?thesis ..
  next
    case False
    with body have "snd r = sdrop (Suc 0) g" by (auto simp: Let_def)
    then show ?thesis ..
  qed
qed

lemma shuffle_loop_returns:
  "redraws_differ sz g \<Longrightarrow> \<exists>d'. shuffle_loop n sz d g = Some d'"
proof (induction n arbitrary: d g)
  case 0
  then show ?case by simp
next
  case (Suc n)
  let ?a = "floor_unif sz (shd g)"
  from Suc.prems obtain k where "floor_unif sz (g !! (0 + Suc k)) \<noteq> floor_unif sz (g !! 0)"
    unfolding redraws_differ_def by blast
  then have "floor_unif sz (stl g !! k) \<noteq> ?a" by simp
  then have "draw_b sz ?a (stl g) \<noteq> None"
    unfolding draw_b_returns_iff by blast
  then obtain b g' where b: "draw_b sz ?a (stl g) = Some (b, g')" by auto
  from draw_b_rest[OF b] obtain m where "g' = sdrop m (stl g)" by auto
  then have "g' = sdrop (Suc m) g" by simp
  then have "redraws_differ sz g'"
    using Suc.prems by (simp only: redraws_differ_sdrop)
  from Suc.IH[OF this, of "swap ?a b d"] obtain d' where
    "shuffle_loop n sz (swap ?a b d) g' = Some d'" ..
  then have "shuffle_loop (Suc n) sz d g = Some d'"
    using b by (simp add: Let_def)
  then show ?case ..
qed

text \<open>
  Whenever \<open>shuffle\<close> returns, for any repeat count and any generator outputs, the
  pile holds the same multiset of cards as before (and as many), and the hands and
  the number of players are untouched. Both indices of every swap lie below the size
  read at the start, so no swap leaves the pile.
\<close>

lemma shuffle_returns_permutation:
  assumes "shuffle time g t = Some t'"
  shows "mset (deck.pile (poker.pile t')) = mset (deck.pile (poker.pile t)) \<and>
         size_d (poker.pile t') = size_d (poker.pile t) \<and>
         player_card t' = player_card t \<and> players t' = players t"
proof -
  from assms obtain d' where
    l: "shuffle_loop (unat time) (shuffle_size (poker.pile t)) (poker.pile t) g = Some d'"
    and t': "t' = t\<lparr>poker.pile := d'\<rparr>"
    by (auto simp: shuffle_def)
  have m: "mset (deck.pile d') = mset (deck.pile (poker.pile t))"
    using shuffle_loop_mset[OF l shuffle_size_le] by simp
  then have "length (deck.pile d') = length (deck.pile (poker.pile t))"
    by (rule mset_eq_length)
  then show ?thesis
    using m by (simp add: t' size_d_def)
qed

text \<open>
  Claim C5, amended. When the size of the pile as \<open>shuffle\<close> reads it into its
  \<open>unsigned int\<close> is at least 2 (for a pile of fewer than \<open>2 ^ 32\<close> cards: when the
  pile has at least 2 cards), then for every repeat count and all generator outputs
  on which every redraw loop ends, \<open>shuffle\<close> returns, the pile holds the same
  multiset of cards as before, and the hands and the number of players are untouched.
\<close>

theorem shuffle_permutes:
  assumes "2 \<le> shuffle_size (poker.pile t)"
    and "redraws_differ (shuffle_size (poker.pile t)) g"
  shows "\<exists>t'. shuffle time g t = Some t' \<and>
           mset (deck.pile (poker.pile t')) = mset (deck.pile (poker.pile t)) \<and>
           size_d (poker.pile t') = size_d (poker.pile t) \<and>
           player_card t' = player_card t \<and> players t' = players t"
proof -
  from shuffle_loop_returns[OF assms(2), of "unat time" "poker.pile t"]
  obtain d' where
    "shuffle_loop (unat time) (shuffle_size (poker.pile t)) (poker.pile t) g = Some d'" ..
  then have r: "shuffle time g t = Some (t\<lparr>poker.pile := d'\<rparr>)"
    by (simp add: shuffle_def)
  from shuffle_returns_permutation[OF r] r show ?thesis by blast
qed

lemma redraws_differ_counting: "2 \<le> sz \<Longrightarrow> redraws_differ sz counting_draws"
  unfolding redraws_differ_def counting_draws_def
proof
  fix n
  assume sz: "2 \<le> sz"
  have s: "siterate Suc 0 !! i = i" for i
    by (induction i) (simp_all add: snth_siterate)
  have "Suc n mod sz \<noteq> n mod sz"
    using sz by (simp add: mod_Suc)
  then have "floor_unif sz (siterate Suc 0 !! (n + Suc 0)) \<noteq> floor_unif sz (siterate Suc 0 !! n)"
    using sz unfolding s by (simp add: floor_unif_def)
  then show "\<exists>k. floor_unif sz (siterate Suc 0 !! (n + Suc k))
      \<noteq> floor_unif sz (siterate Suc 0 !! n)" ..
qed

theorem shuffle_permutes_witness:
  "2 \<le> shuffle_size (poker.pile fresh_game) \<and>
   redraws_differ (shuffle_size (poker.pile fresh_game)) counting_draws \<and>
   (\<exists>t'. shuffle 1000 counting_draws fresh_game = Some t' \<and>
      mset (deck.pile (poker.pile t')) = mset (deck.pile (poker.pile fresh_game)) \<and>
      size_d (poker.pile t') = 52)"
proof -
  have sz: "shuffle_size (poker.pile fresh_game) = 52"
    by (simp add: shuffle_size_def size_d_def fresh_game_def length_combinations52)
  have s52: "size_d (poker.pile fresh_game) = 52"
    by (simp add: size_d_def fresh_game_def length_combinations52)
  have two: "2 \<le> shuffle_size (poker.pile fresh_game)"
    by (simp add: sz)
  have fair: "redraws_differ (shuffle_size (poker.pile fresh_game)) counting_draws"
    using two by (rule redraws_differ_counting)
  show ?thesis
    using two fair shuffle_permutes[OF two fair, of 1000] unfolding s52 by blast
qed

text \<open>
  Claim C5, as stated, fails on a pile whose size is a multiple of \<open>2 ^ 32\<close>: after
  82595525 decks are built for one player and \<open>deal 4\<close>, the pile has \<open>2 ^ 32\<close>
  cards, the size read into the \<open>unsigned int\<close> is 0, and \<open>shuffle 1\<close> returns for no
  generator outputs: there is no resulting pile.
\<close>

theorem shuffle_returns_nothing:
  "poker_ctor 82595525 1 False = Returns heavy_game \<and>
   deal 4 heavy_game = (Returns (), four_dealt) \<and>
   size_d (poker.pile four_dealt) = 4294967296 \<and>
   (\<forall>g. shuffle 1 g four_dealt = None)"
proof -
  have c: "poker_ctor 82595525 1 False = Returns heavy_game"
    using poker_ctor_Returns[of 1 82595525 False] by (simp add: heavy_game_def)
  have sz: "size_d (poker.pile heavy_game) = 4294967300"
    using length_source_decks[of 82595525 False] by (simp add: heavy_game_def size_d_def)
  have len: "length (player_card heavy_game) = unat (players heavy_game)"
    by (simp add: heavy_game_def)
  have pos: "unat (0 :: 32 word) < unat (players heavy_game)"
    by (simp add: heavy_game_def)
  have enough: "4 \<le> size_d (poker.pile heavy_game)"
    by (simp add: sz)
  have n: "unat (4 * players heavy_game) = 4"
    by (simp add: heavy_game_def)
  have d: "fst (deal 4 heavy_game) = Returns () \<and>
      deck.pile (poker.pile (snd (deal 4 heavy_game)))
        = take (size_d (poker.pile heavy_game) - 4) (deck.pile (poker.pile heavy_game))"
    unfolding deal_def n by (simp add: deal_loop_spec[OF len pos enough])
  then have d1: "deal 4 heavy_game = (Returns (), four_dealt)"
    by (simp add: four_dealt_def prod_eq_iff)
  have s4: "size_d (poker.pile four_dealt) = 4294967296"
    using d sz by (simp add: four_dealt_def size_d_def)
  have ss: "shuffle_size (poker.pile four_dealt) = 0"
    by (simp add: shuffle_size_def s4)
  have "shuffle 1 g four_dealt = None" for g
    using shuffle_loop_small[of 0 0 "poker.pile four_dealt" g]
    by (simp add: shuffle_def ss del: shuffle_loop.simps)
  then show ?thesis
    using c d1 s4 by simp
qed

lemma shuffle_sample_draws:
  "shuffle 2 sample_draws fresh_game
     = Some (fresh_game\<lparr>poker.pile := swap 2 1 (swap 0 1 (poker.pile fresh_game))\<rparr>) \<and>
   mset (deck.pile (swap 2 1 (swap 0 1 (poker.pile fresh_game))))
     = mset (deck.pile (poker.pile fresh_game))"
proof -
  have sz: "shuffle_size (poker.pile fresh_game) = 52"
    by (simp add: shuffle_size_def size_d_def fresh_game_def length_combinations52)
  have two: "unat (2 :: 32 word) = Suc (Suc 0)"
    by simp
  have e: "shuffle 2 sample_draws fresh_game
     = Some (fresh_game\<lparr>poker.pile := swap 2 1 (swap 0 1 (poker.pile fresh_game))\<rparr>)"
    unfolding shuffle_def sz sample_draws_def two
    by (simp add: draw_b_SCons floor_unif_def)
  show ?thesis
    using e shuffle_returns_permutation[OF e] by simp
qed

text \<open>
  Claim C6, amended. \<open>shuffle\<close> reads the size of the pile into an \<open>unsigned int\<close>;
  \<open>shuffle_size\<close> is that value, equal to the size for every pile of fewer than
  \<open>2 ^ 32\<close> cards. When it is at least 2 there are generator outputs for which
  \<open>shuffle\<close> returns, whatever the repeat count; when it is below 2 and the repeat
  count is not zero, \<open>shuffle\<close> returns for no generator outputs. The redraw loop
  itself returns exactly when some later output gives an index other than \<open>a\<close>.
\<close>

theorem shuffle_termination:
  "(2 \<le> shuffle_size (poker.pile t) \<longrightarrow> (\<exists>g. shuffle time g t \<noteq> None)) \<and>
   (shuffle_size (poker.pile t) < 2 \<and> time \<noteq> 0 \<longrightarrow> (\<forall>g. shuffle time g t = None)) \<and>
   (size_d (poker.pile t) < 2 ^ 32 \<longrightarrow> shuffle_size (poker.pile t) = size_d (poker.pile t)) \<and>
   (draw_b sz a g \<noteq> None \<longleftrightarrow> (\<exists>k. floor_unif sz (g !! k) \<noteq> a))"
proof (intro conjI impI allI)
  assume "2 \<le> shuffle_size (poker.pile t)"
  from shuffle_loop_can_return[OF this, of "unat time" "poker.pile t"]
  show "\<exists>g. shuffle time g t \<noteq> None"
    by (simp add: shuffle_def)
next
  fix g
  assume a: "shuffle_size (poker.pile t) < 2 \<and> time \<noteq> 0"
  then have "unat time \<noteq> 0" by (simp add: unat_eq_0)
  then obtain n where "unat time = Suc n" by (cases "unat time") simp_all
  with a show "shuffle time g t = None"
    by (simp add: shuffle_def shuffle_loop_small del: shuffle_loop.simps)
next
  assume "size_d (poker.pile t) < 2 ^ 32"
  then show "shuffle_size (poker.pile t) = size_d (poker.pile t)"
    by (simp add: shuffle_size_def unat_of_nat)
next
  show "draw_b sz a g \<noteq> None \<longleftrightarrow> (\<exists>k. floor_unif sz (g !! k) \<noteq> a)"
    by (rule draw_b_returns_iff)
qed

theorem shuffle_termination_witness:
  "2 \<le> shuffle_size (poker.pile fresh_game) \<and>
   (\<exists>g. shuffle 1000 g fresh_game \<noteq> None) \<and>
   size_d (poker.pile fresh_game) < 2 ^ 32 \<and>
   shuffle_size (poker.pile fresh_game) = size_d (poker.pile fresh_game) \<and>
   poker_ctor 0 1 False = Returns no_cards \<and>
   (shuffle_size (poker.pile no_cards) < 2 \<and> (1 :: 32 word) \<noteq> 0) \<and>
   (\<forall>g. shuffle 1 g no_cards = None)"
proof -
  have sz: "size_d (poker.pile fresh_game) = 52"
    by (simp add: size_d_def fresh_game_def length_combinations52)
  then have lt: "size_d (poker.pile fresh_game) < 2 ^ 32"
    by simp
  have ss: "shuffle_size (poker.pile fresh_game) = 52"
    by (simp add: shuffle_size_def sz)
  then have two: "2 \<le> shuffle_size (poker.pile fresh_game)"
    by simp
  have c: "poker_ctor 0 1 False = Returns no_cards"
    by (simp add: poker_ctor_def no_cards_def)
  have small: "shuffle_size (poker.pile no_cards) < 2 \<and> (1 :: 32 word) \<noteq> 0"
    by (simp add: shuffle_size_def size_d_def no_cards_def new_deck_def)
  show ?thesis
    using two lt c small shuffle_termination[of fresh_game 1000]
      shuffle_termination[of no_cards 1]
    by blast
qed

text \<open>
  Claim C6, as stated, fails on a pile whose size is a multiple of \<open>2 ^ 32\<close>: the
  game built from 1073741824 decks has \<open>13 * 2 ^ 32\<close> cards, the size read into the
  \<open>unsigned int\<close> is 0, and \<open>shuffle\<close> returns for no generator outputs.
\<close>

theorem shuffle_hangs_on_wrapped_size:
  "poker_ctor 1073741824 1 False = Returns big_game \<and>
   2 \<le> size_d (poker.pile big_game) \<and>
   (\<forall>g. shuffle 1 g big_game = None)"
proof -
  have c: "poker_ctor 1073741824 1 False = Returns big_game"
    using poker_ctor_Returns[of 1 1073741824 False] by (simp add: big_game_def)
  have sz: "size_d (poker.pile big_game) = 55834574848"
    using length_source_decks[of 1073741824 False] by (simp add: big_game_def size_d_def)
  have ss: "shuffle_size (poker.pile big_game) = 0"
    by (simp add: shuffle_size_def sz)
  have "shuffle 1 g big_game = None" for g
    using shuffle_loop_small[of 0 0 "poker.pile big_game" g]
    by (simp add: shuffle_def ss del: shuffle_loop.simps)
  then show ?thesis
    using c sz by simp
qed

section \<open>Well-formed games\<close>

lemma wf_poker_ctor: "poker_ctor deck player joker = Returns t \<Longrightarrow> wf_poker t"
  by (auto simp: poker_ctor_def wf_poker_def fold_push_hands split: if_splits)

lemma wf_play: "wf_poker t \<Longrightarrow> wf_poker (snd (play player_no c t))"
  by (auto simp: play_def wf_poker_def split: prod.splits outcome.splits)

lemma wf_draw: "wf_poker t \<Longrightarrow> wf_poker (snd (draw player_no t))"
  by (simp add: draw_def wf_poker_def Let_def)

lemma wf_deal_step: "wf_poker t \<Longrightarrow> wf_poker (deal_step player_no t)"
  by (simp add: deal_step_def wf_poker_def)

lemma wf_deal_loop: "wf_poker t \<Longrightarrow> wf_poker (snd (deal_loop n player_no t))"
proof (induction n arbitrary: player_no t)
  case 0
  then show ?case by simp
next
  case (Suc n)
  show ?case
  proof (cases "length (player_card t) \<le> unat player_no \<or> empty_d (poker.pile t)")
    case True
    then show ?thesis using Suc.prems by simp
  next
    case False
    then have "deal_loop (Suc n) player_no t
        = deal_loop n (next_player player_no t) (deal_step player_no t)"
      by (intro deal_loop_Suc) simp_all
    then show ?thesis
      using Suc.IH[OF wf_deal_step[OF Suc.prems]] by simp
  qed
qed

lemma wf_deal: "wf_poker t \<Longrightarrow> wf_poker (snd (deal k t))"
  unfolding deal_def by (rule wf_deal_loop)

lemma wf_shuffle: "shuffle time g t = Some t' \<Longrightarrow> wf_poker t \<Longrightarrow> wf_poker t'"
  by (auto simp: shuffle_def wf_poker_def)

section \<open>Conservation of cards\<close>

lemma sum_size_update:
  assumes "i < length ds"
  shows "sum_list (map size_d (ds[i := d])) + size_d (ds ! i) = sum_list (map size_d ds) + size_d d"
  using assms
proof (induction ds arbitrary: i)
  case Nil
  then show ?case by simp
next
  case (Cons a ds)
  then show ?case by (cases i) auto
qed

lemma total_cards_deal_step:
  assumes "unat player_no < length (player_card t)" "\<not> empty_d (poker.pile t)"
  shows "total_cards (deal_step player_no t) = total_cards t"
proof -
  let ?d = "push_back (back_d (poker.pile t)) (player_card t ! unat player_no)"
  have "size_d ?d = size_d (player_card t ! unat player_no) + 1"
    by (simp add: push_back_def size_d_def)
  with sum_size_update[OF assms(1), of ?d]
  have "sum_list (map size_d ((player_card t)[unat player_no := ?d]))
      = sum_list (map size_d (player_card t)) + 1"
    by simp
  moreover have "size_d (pop_back (poker.pile t)) + 1 = size_d (poker.pile t)"
    using assms(2) by (simp add: pop_back_def size_d_def empty_d_def)
  ultimately show ?thesis
    by (simp add: total_cards_def deal_step_def)
qed

lemma total_cards_draw: "total_cards (snd (draw player_no t)) = total_cards t"
proof (cases "players t \<le> player_no \<or> length (player_card t) \<le> unat player_no \<or> empty_d (poker.pile t)")
  case True
  then show ?thesis by (auto simp: draw_def)
next
  case False
  then have "snd (draw player_no t) = deal_step player_no t"
    by (simp add: draw_def deal_step_def Let_def)
  then show ?thesis
    using False by (simp add: total_cards_deal_step)
qed

lemma total_cards_deal_loop: "total_cards (snd (deal_loop n player_no t)) = total_cards t"
proof (induction n arbitrary: player_no t)
  case 0
  then show ?case by simp
next
  case (Suc n)
  show ?case
  proof (cases "length (player_card t) \<le> unat player_no \<or> empty_d (poker.pile t)")
    case True
    then show ?thesis by simp
  next
    case False
    then have "deal_loop (Suc n) player_no t
        = deal_loop n (next_player player_no t) (deal_step player_no t)"
      by (intro deal_loop_Suc) simp_all
    then show ?thesis
      using Suc.IH[of "next_player player_no t" "deal_step player_no t"] False
      by (simp add: total_cards_deal_step)
  qed
qed

lemma total_cards_deal: "total_cards (snd (deal k t)) = total_cards t"
  unfolding deal_def by (rule total_cards_deal_loop)

lemma total_cards_play:
  assumes "fst (play player_no c t) = Returns ()"
  shows "total_cards (snd (play player_no c t)) + 1 = total_cards t"
proof -
  let ?i = "unat player_no"
  let ?h = "player_card t ! ?i"
  from assms have i: "?i < length (player_card t)"
    by (auto simp: play_def split: if_splits)
  from assms have r: "fst (remove c ?h) = Returns c"
    by (auto simp: play_def remove_def Let_def split: if_splits prod.splits outcome.splits)
  then have f: "std_find (deck.pile ?h) c \<noteq> length (deck.pile ?h)"
    by (auto simp: remove_def Let_def split: if_splits)
  have le: "std_find xs c \<le> length xs" for xs
    by (induction xs) auto
  from f le[of "deck.pile ?h"] have lt: "std_find (deck.pile ?h) c < length (deck.pile ?h)"
    by simp
  have rm: "remove c ?h = (Returns c, ?h\<lparr>deck.pile := erase (std_find (deck.pile ?h) c) (deck.pile ?h)\<rparr>)"
    using f by (simp add: remove_def Let_def)
  have sz: "size_d (snd (remove c ?h)) + 1 = size_d ?h"
    using lt by (simp add: rm size_d_def erase_def)
  have p: "snd (play player_no c t) = t\<lparr>player_card := (player_card t)[?i := snd (remove c ?h)]\<rparr>"
    using assms i by (auto simp: play_def rm split: if_splits)
  show ?thesis
    using sum_size_update[OF i, of "snd (remove c ?h)"] sz
    by (simp add: p total_cards_def)
qed

lemma total_cards_shuffle:
  assumes "shuffle time g t = Some t'"
  shows "total_cards t' = total_cards t"
proof -
  from assms obtain d' where
    l: "shuffle_loop (unat time) (shuffle_size (poker.pile t)) (poker.pile t) g = Some d'"
    and t': "t' = t\<lparr>poker.pile := d'\<rparr>"
    by (auto simp: shuffle_def)
  have "mset (deck.pile d') = mset (deck.pile (poker.pile t))"
    using shuffle_loop_mset[OF l shuffle_size_le] by simp
  then have "length (deck.pile d') = length (deck.pile (poker.pile t))"
    by (rule mset_eq_length)
  then show ?thesis
    by (simp add: t' total_cards_def size_d_def)
qed

lemma total_cards_ctor:
  assumes "poker_ctor deck player joker = Returns t"
  shows "total_cards t = unat deck * 52 + (if joker then 1 else 0) * unat deck * 2"
proof -
  from assms have p: "player \<noteq> 0"
    by (auto simp: poker_ctor_def split: if_splits)
  have "sum_list (map size_d (replicate n new_deck)) = 0" for n
    by (induction n) (simp_all add: size_d_def new_deck_def)
  then show ?thesis
    using assms poker_ctor_Returns[OF p, of deck joker] length_source_decks[of "unat deck" joker]
    by (auto simp: total_cards_def size_d_def)
qed

text \<open>
  Claim C1 fails on \<open>play\<close>. Its documentation reads "Play a card from the player to
  the card pile", and the code only removes the card from the hand: every \<open>play\<close>
  that returns loses one card (\<open>total_cards_play\<close>), while \<open>draw\<close>, \<open>deal\<close> and
  \<open>shuffle\<close> keep the number of cards. One deck for two players has 52 cards; after
  player 0 draws the king of spades there are still 52; after player 0 plays it
  there are 51.
\<close>

theorem play_loses_a_card:
  "poker_ctor 1 2 False = Returns fresh_game \<and>
   total_cards fresh_game = 52 \<and>
   draw 0 fresh_game = (Returns (card_ctor 3 13), drawn_one) \<and>
   total_cards drawn_one = 52 \<and>
   fst (play 0 (card_ctor 3 13) drawn_one) = Returns () \<and>
   total_cards (snd (play 0 (card_ctor 3 13) drawn_one)) = 51"
  by code_simp

end
